theory Spec2Isabelle
  imports Main "HOL-Library.Word" "HOL-Library.Char_ord" "HOL-Library.List_Lexorder"
    "HOL-Library.Multiset"
begin

section \<open>The catalog: tables, rows and the environment\<close>

text \<open>
  The index service of \<^verbatim>\<open>registry/index/index.go\<close> keeps two SQLite tables,
  \<^verbatim>\<open>repositories(id, repository)\<close> and
  \<^verbatim>\<open>tags(id, repository, digest, url, tag, status, description, target_url, updated_at)\<close>,
  with a unique index on \<^verbatim>\<open>repositories(repository)\<close> and one on
  \<^verbatim>\<open>tags(repository, tag)\<close>. A table is the list of its rows in scan order.
  Strings are lists of characters; an instant of \<^verbatim>\<open>time.Time\<close> is a point on a
  discrete time line.
\<close>

type_synonym time = int

record repositories_row =
  r_id :: nat
  r_repository :: string

record tags_row =
  t_id :: nat
  t_repository :: string
  t_digest :: string
  t_url :: string
  t_tag :: string
  t_status :: string
  t_description :: string
  t_target_url :: string
  t_updated_at :: time

text \<open>
  The errors a call of \<^verbatim>\<open>database/sql\<close> can hand back: the sentinel
  \<^verbatim>\<open>sql.ErrNoRows\<close>, which only \<^verbatim>\<open>Row.Scan\<close> after \<^verbatim>\<open>QueryRow\<close> produces, and
  whatever the driver reports (disk, lock, I/O).
\<close>

datatype error = ErrNoRows | ErrDriver

text \<open>
  The state every operation works on: the two tables, and the two things the code reads
  from its environment. \<open>faults\<close> lists the outcomes of the statements still to come
  (\<open>True\<close>: the driver reports an error for that statement and changes nothing; an empty
  list: no further failure). \<open>now\<close> is what the next \<^verbatim>\<open>time.Now()\<close> returns, \<open>ticks\<close>
  the readings after it.
\<close>

record index_state =
  repositories :: "repositories_row list"
  tags :: "tags_row list"
  faults :: "bool list"
  now :: time
  ticks :: "time list"

definition time_Now :: "index_state \<Rightarrow> time \<times> index_state" where
  "time_Now s =
     (case ticks s of
        [] \<Rightarrow> (now s, s)
      | t # ts \<Rightarrow> (now s, s\<lparr>now := t, ticks := ts\<rparr>))"

subsection \<open>The SQL statements\<close>

text \<open>
  A row inserted without an explicit \<^verbatim>\<open>id\<close> gets the largest rowid in the table plus
  one (1 in an empty table); SQLite picks it before it resolves conflicts.
\<close>

definition next_rowid :: "nat list \<Rightarrow> nat" where
  "next_rowid ids = fold max ids 0 + 1"

text \<open>\<^verbatim>\<open>replace into repositories(repository) values(?)\<close>: the row that holds the same
  name under the unique index is deleted, the new row is appended.\<close>

definition replace_into_repositories :: "string \<Rightarrow> index_state \<Rightarrow> index_state" where
  "replace_into_repositories name s =
     s\<lparr>repositories :=
         filter (\<lambda>r. r_repository r \<noteq> name) (repositories s)
         @ [\<lparr>r_id = next_rowid (map r_id (repositories s)), r_repository = name\<rparr>]\<rparr>"

text \<open>\<^verbatim>\<open>replace into tags(repository, tag, digest, url, updated_at, status, description,
  target_url) values(?,?,?,?,?,'unset','','')\<close>.\<close>

definition replace_into_tags ::
  "string \<Rightarrow> string \<Rightarrow> string \<Rightarrow> string \<Rightarrow> time \<Rightarrow> index_state \<Rightarrow> index_state" where
  "replace_into_tags repo tag digest url updated s =
     s\<lparr>tags :=
         filter (\<lambda>t. \<not> (t_repository t = repo \<and> t_tag t = tag)) (tags s)
         @ [\<lparr>t_id = next_rowid (map t_id (tags s)), t_repository = repo, t_digest = digest,
             t_url = url, t_tag = tag, t_status = ''unset'', t_description = '''',
             t_target_url = '''', t_updated_at = updated\<rparr>]\<rparr>"

text \<open>\<^verbatim>\<open>delete from tags where repository=? and tag=?\<close>.\<close>

definition delete_from_tags :: "string \<Rightarrow> string \<Rightarrow> index_state \<Rightarrow> index_state" where
  "delete_from_tags repo tag s =
     s\<lparr>tags := filter (\<lambda>t. \<not> (t_repository t = repo \<and> t_tag t = tag)) (tags s)\<rparr>"

text \<open>\<^verbatim>\<open>delete from repositories where repository not in
  (select distinct repository from tags)\<close>.\<close>

definition delete_orphan_repositories :: "index_state \<Rightarrow> index_state" where
  "delete_orphan_repositories s =
     s\<lparr>repositories :=
         filter (\<lambda>r. r_repository r \<in> set (map t_repository (tags s))) (repositories s)\<rparr>"

text \<open>\<^verbatim>\<open>update tags set status=?, description=?, target_url=? where repository=? and
  tag=?\<close>. An update that matches no row is no error: it changes zero rows.\<close>

definition update_tags ::
  "string \<Rightarrow> string \<Rightarrow> string \<Rightarrow> string \<Rightarrow> string \<Rightarrow> index_state \<Rightarrow> index_state" where
  "update_tags status description target_url repo tag s =
     s\<lparr>tags :=
         map (\<lambda>t. if t_repository t = repo \<and> t_tag t = tag
                  then t\<lparr>t_status := status, t_description := description,
                         t_target_url := target_url\<rparr>
                  else t)
             (tags s)\<rparr>"

text \<open>\<^verbatim>\<open>db.Exec\<close>: the statement runs unless the driver fails; a failed statement
  leaves the tables as they were. \<^verbatim>\<open>Exec\<close> never returns \<^verbatim>\<open>sql.ErrNoRows\<close>.\<close>

definition Exec :: "(index_state \<Rightarrow> index_state) \<Rightarrow> index_state \<Rightarrow> error option \<times> index_state" where
  "Exec stmt s =
     (case faults s of
        [] \<Rightarrow> (None, stmt s)
      | f # fs \<Rightarrow>
          if f then (Some ErrDriver, s\<lparr>faults := fs\<rparr>)
          else (None, stmt (s\<lparr>faults := fs\<rparr>)))"

section \<open>The event sink\<close>

text \<open>
  Of \<^verbatim>\<open>notifications.Event\<close> the sink reads the action and four fields of the target.
\<close>

record Target =
  MediaType :: string
  Digest :: string
  Repository :: string
  URL :: string

record Event =
  Action :: string
  Target :: Target

text \<open>
  Modelled from the spec: the constants \<^verbatim>\<open>manifest.ManifestMediaType\<close>,
  \<^verbatim>\<open>notifications.EventActionPush\<close> and \<^verbatim>\<open>notifications.EventActionDelete\<close> belong to
  packages that are not part of the sources at hand. The spec names the actions push and
  delete and calls the media type the one "marking an event's target as a top-level
  artifact descriptor"; the values are those of the registry's packages. No proof below
  depends on the values, only on the three being fixed strings.
\<close>

definition ManifestMediaType :: string where
  "ManifestMediaType = ''application/vnd.docker.distribution.manifest.v1+json''"

definition EventActionPush :: string where
  "EventActionPush = ''push''"

definition EventActionDelete :: string where
  "EventActionDelete = ''delete''"

text \<open>\<^verbatim>\<open>strings.Split(s, sep)\<close> for a separator of one character: the pieces between the
  separators, always at least one piece. \<open>cur\<close> is the piece being read.\<close>

fun split_from :: "char \<Rightarrow> string \<Rightarrow> string \<Rightarrow> string list" where
  "split_from sep cur [] = [cur]"
| "split_from sep cur (c # cs) =
     (if c = sep then cur # split_from sep [] cs else split_from sep (cur @ [c]) cs)"

definition strings_Split :: "string \<Rightarrow> char \<Rightarrow> string list" where
  "strings_Split s sep = split_from sep [] s"

definition parseTag :: "string \<Rightarrow> string" where
  "parseTag url =
     (let parts = strings_Split url (CHR ''/''); l = length parts
      in if l > 1 then parts ! (l - 1) else '''')"

definition delete :: "Event \<Rightarrow> index_state \<Rightarrow> error option \<times> index_state" where
  "delete event s =
     (let tag = parseTag (URL (Target event))
      in case Exec (delete_from_tags (Repository (Target event)) tag) s of
           (None, s1) \<Rightarrow> Exec delete_orphan_repositories s1
         | (Some err, s1) \<Rightarrow> (Some err, s1))"

definition add :: "Event \<Rightarrow> index_state \<Rightarrow> error option \<times> index_state" where
  "add event s =
     (let target = Target event
      in case Exec (replace_into_repositories (Repository target)) s of
           (Some err, s1) \<Rightarrow> (Some err, s1)
         | (None, s1) \<Rightarrow>
             (let tag = parseTag (URL (Target event));
                  (t, s2) = time_Now s1
              in case Exec (replace_into_tags (Repository target) tag (Digest target)
                              (URL target) t) s2 of
                   (Some err, s3) \<Rightarrow> (Some err, s3)
                 | (None, s3) \<Rightarrow> (None, s3)))"

fun Write :: "Event list \<Rightarrow> index_state \<Rightarrow> error option \<times> index_state" where
  "Write [] s = (None, s)"
| "Write (event # events) s =
     (if MediaType (Target event) = ManifestMediaType then
        if Action event = EventActionDelete then
          (case delete event s of
             (Some err, s') \<Rightarrow> (Some err, s')
           | (None, s') \<Rightarrow> Write events s')
        else if Action event = EventActionPush then
          (case add event s of
             (Some err, s') \<Rightarrow> (Some err, s')
           | (None, s') \<Rightarrow> Write events s')
        else Write events s
      else Write events s)"

section \<open>The status patch\<close>

definition SetTagStatus ::
  "string \<Rightarrow> string \<Rightarrow> string \<Rightarrow> string \<Rightarrow> string \<Rightarrow> index_state
     \<Rightarrow> error option \<times> index_state" where
  "SetTagStatus repo tag status description target_url s =
     Exec (update_tags status description target_url repo tag) s"

text \<open>
  The handler of \<^verbatim>\<open>registry/handlers/tag_status.go\<close>. The request body is what
  \<^verbatim>\<open>json.Decode\<close> makes of it: \<open>None\<close> when it is no JSON object of strings, the
  decoded \<^verbatim>\<open>map[string]string\<close> otherwise. Reading a key the map lacks gives the empty
  string. The result is the HTTP status code written and the state left behind.
\<close>

definition map_index :: "(string \<rightharpoonup> string) \<Rightarrow> string \<Rightarrow> string" where
  "map_index req k = (case req k of None \<Rightarrow> '''' | Some v \<Rightarrow> v)"

definition tagStatusHandler_SetTagStatus ::
  "(string \<rightharpoonup> string) option \<Rightarrow> index_state \<Rightarrow> nat \<times> index_state" where
  "tagStatusHandler_SetTagStatus body s =
     (case body of
        None \<Rightarrow> (400, s)
      | Some req \<Rightarrow>
          (case SetTagStatus (map_index req ''repository'') (map_index req ''tag'')
                  (map_index req ''status'') (map_index req ''description'')
                  (map_index req ''target_url'') s of
             (err, s') \<Rightarrow>
               if err = Some ErrNoRows then (404, s')
               else if err \<noteq> None then (500, s')
               else (204, s')))"

section \<open>The query service\<close>

record Tag =
  Tag_Repository :: string
  Tag_Tag :: string
  Tag_Digest :: string
  Tag_Url :: string
  Tag_Status :: string
  Tag_Description :: string
  Tag_TargetURL :: string
  Tag_UpdatedAt :: time

record Repository =
  Repository_Repository :: string
  Repository_Tags :: "Tag list"

record QueryArgs =
  Keyword :: string
  Skip :: int
  Limit :: int

definition defaultLimit :: int where
  "defaultLimit = 20"

definition prepare :: "QueryArgs \<Rightarrow> QueryArgs" where
  "prepare self =
     (let self1 = (if Skip self < 0 then self\<lparr>Skip := 0\<rparr> else self)
      in if Limit self1 < 1 then self1\<lparr>Limit := defaultLimit\<rparr> else self1)"

subsection \<open>The SQL queries\<close>

text \<open>
  SQLite's \<^verbatim>\<open>LIKE\<close>, pattern first: \<^verbatim>\<open>%\<close> stands for any run of characters, \<^verbatim>\<open>_\<close> for
  any single character, and every other character for itself, where the upper and lower
  case of an ASCII letter are the same character. The statement has no \<^verbatim>\<open>ESCAPE\<close>.
  SQLite matches character by character of the UTF-8 text and stops at a NUL byte; \<open>like\<close>
  matches \<open>char\<close> by \<open>char\<close>, which is the same for text of ASCII characters other than
  NUL (\<open>ascii_text\<close>), the text of repository names.
\<close>

definition ascii_text :: "string \<Rightarrow> bool" where
  "ascii_text s \<longleftrightarrow> list_all (\<lambda>c. 0 < (of_char c :: nat) \<and> (of_char c :: nat) < 128) s"


definition ascii_lower :: "char \<Rightarrow> char" where
  "ascii_lower c =
     (if 65 \<le> (of_char c :: nat) \<and> (of_char c :: nat) \<le> 90 then char_of (of_char c + 32 :: nat)
      else c)"

fun like :: "string \<Rightarrow> string \<Rightarrow> bool" where
  "like [] [] = True"
| "like [] (c # cs) = False"
| "like (p # ps) [] = (p = CHR ''%'' \<and> like ps [])"
| "like (p # ps) (c # cs) =
     (if p = CHR ''%'' then like ps (c # cs) \<or> like (p # ps) cs
      else (p = CHR ''_'' \<or> ascii_lower p = ascii_lower c) \<and> like ps cs)"

text \<open>\<^verbatim>\<open>limit ? offset ?\<close>: a negative limit is no limit, a negative offset is 0.\<close>

definition limit_offset :: "int \<Rightarrow> int \<Rightarrow> 'a list \<Rightarrow> 'a list" where
  "limit_offset lim off xs =
     (let ys = drop (nat off) xs in if lim < 0 then ys else take (nat lim) ys)"

text \<open>\<^verbatim>\<open>select repository from repositories [where repository like ?] limit ? offset ?\<close>;
  the pattern is \<open>None\<close> for the statement without the \<^verbatim>\<open>where\<close>. SQLite refuses a
  \<^verbatim>\<open>LIKE\<close> pattern of more than 50000 bytes when it evaluates it for the first row; the
  result set then ends without a row, and \<^verbatim>\<open>GetPage\<close>, which never asks \<^verbatim>\<open>rows.Err()\<close>,
  sees an empty result.\<close>

definition SQLITE_MAX_LIKE_PATTERN_LENGTH :: int where
  "SQLITE_MAX_LIKE_PATTERN_LENGTH = 50000"

definition select_repositories :: "string option \<Rightarrow> int \<Rightarrow> int \<Rightarrow> index_state \<Rightarrow> string list" where
  "select_repositories pattern lim off s =
     (case pattern of
        None \<Rightarrow> limit_offset lim off (map r_repository (repositories s))
      | Some p \<Rightarrow>
          if int (length p) > SQLITE_MAX_LIKE_PATTERN_LENGTH then []
          else limit_offset lim off
                 (map r_repository (filter (\<lambda>r. like p (r_repository r)) (repositories s))))"

text \<open>A row of \<^verbatim>\<open>tags\<close> scanned into a \<^verbatim>\<open>Tag\<close>.\<close>

definition scan_Tag :: "tags_row \<Rightarrow> Tag" where
  "scan_Tag t =
     \<lparr>Tag_Repository = t_repository t, Tag_Tag = t_tag t, Tag_Digest = t_digest t,
      Tag_Url = t_url t, Tag_Status = t_status t, Tag_Description = t_description t,
      Tag_TargetURL = t_target_url t, Tag_UpdatedAt = t_updated_at t\<rparr>"

text \<open>\<^verbatim>\<open>select repository, tag, digest, url, status, description, target_url, updated_at
  from tags where repository = ?\<close>. SQLite answers the query through the unique index on
  \<^verbatim>\<open>(repository, tag)\<close>, so the rows of a repository come in the order of their tag
  names, compared byte by byte (rows with one tag name, which the index excludes, in table
  order).\<close>

definition select_tags :: "string \<Rightarrow> index_state \<Rightarrow> Tag list" where
  "select_tags repo s =
     map scan_Tag (sort_key t_tag (filter (\<lambda>t. t_repository t = repo) (tags s)))"

text \<open>\<^verbatim>\<open>db.Prepare\<close>, \<^verbatim>\<open>stmt.Query\<close> and \<^verbatim>\<open>db.Query\<close> fail when the driver does, like
  \<^verbatim>\<open>Exec\<close>; they change no table. Scanning a column into the Go type it was written
  from succeeds.\<close>

definition Prepare :: "index_state \<Rightarrow> error option \<times> index_state" where
  "Prepare s = Exec (\<lambda>s. s) s"

definition Query :: "(index_state \<Rightarrow> 'a) \<Rightarrow> index_state \<Rightarrow> (error + 'a) \<times> index_state" where
  "Query sel s =
     (case faults s of
        [] \<Rightarrow> (Inr (sel s), s)
      | f # fs \<Rightarrow>
          if f then (Inl ErrDriver, s\<lparr>faults := fs\<rparr>)
          else (Inr (sel s), s\<lparr>faults := fs\<rparr>))"

text \<open>The loop over the repositories selected: a repository whose tags cannot be read is
  logged and left out, the others are appended in order.\<close>

fun scan_rows :: "string list \<Rightarrow> Repository list \<Rightarrow> index_state \<Rightarrow> Repository list \<times> index_state" where
  "scan_rows [] records s = (records, s)"
| "scan_rows (name # rows) records s =
     (case Query (select_tags name) s of
        (Inl err, s') \<Rightarrow> scan_rows rows records s'
      | (Inr tgs, s') \<Rightarrow>
          scan_rows rows (records @ [\<lparr>Repository_Repository = name, Repository_Tags = tgs\<rparr>]) s')"

definition GetPage :: "QueryArgs \<Rightarrow> index_state \<Rightarrow> (error + Repository list) \<times> index_state" where
  "GetPage args0 s =
     (let args = prepare args0
      in case Prepare s of
           (Some err, s1) \<Rightarrow> (Inl err, s1)
         | (None, s1) \<Rightarrow>
             (case Query (select_repositories
                            (if length (Keyword args) > 0
                             then Some (''%'' @ Keyword args @ ''%'') else None)
                            (Limit args) (Skip args)) s1 of
                (Inl err, s2) \<Rightarrow> (Inl err, s2)
              | (Inr rows, s2) \<Rightarrow>
                  (case scan_rows rows [] s2 of (records, s3) \<Rightarrow> (Inr records, s3))))"

subsection \<open>The HTTP handler and \<^verbatim>\<open>strconv.Atoi\<close>\<close>

text \<open>
  The handler of the query endpoint reads \<^verbatim>\<open>skip\<close> and \<^verbatim>\<open>limit\<close> with
  \<^verbatim>\<open>strconv.Atoi\<close> of Go's library and drops the error. \<^verbatim>\<open>Atoi\<close> is
  \<^verbatim>\<open>ParseInt(s, 10, 0)\<close>, which takes the sign off and hands the rest to
  \<^verbatim>\<open>ParseUint\<close>; here for the 64-bit \<^verbatim>\<open>int\<close>. \<^verbatim>\<open>ParseUint\<close> accumulates in a
  \<^verbatim>\<open>uint64\<close>, which wraps around. In base 10 every byte that is not a decimal digit is
  a syntax error.
\<close>

type_synonym uint64 = "64 word"

datatype num_error = ErrSyntax | ErrRange

definition is_digit :: "char \<Rightarrow> bool" where
  "is_digit d \<longleftrightarrow> 48 \<le> (of_char d :: nat) \<and> (of_char d :: nat) \<le> 57"

definition cutoff64 :: uint64 where
  "cutoff64 = (- 1) div 10 + 1"

definition maxVal :: uint64 where
  "maxVal = push_bit 64 1 - 1"

fun ParseUint_loop :: "string \<Rightarrow> uint64 \<Rightarrow> uint64 \<times> num_error option" where
  "ParseUint_loop [] n = (n, None)"
| "ParseUint_loop (d # ds) n =
     (if \<not> is_digit d then (0, Some ErrSyntax)
      else
        let v = (of_nat (of_char d - 48) :: uint64)
        in if n \<ge> cutoff64 then (- 1, Some ErrRange)
           else
             let m = n * 10; n1 = m + v
             in if n1 < m \<or> n1 > maxVal then (- 1, Some ErrRange)
                else ParseUint_loop ds n1)"

definition ParseUint :: "string \<Rightarrow> uint64 \<times> num_error option" where
  "ParseUint s = (if length s < 1 then (0, Some ErrSyntax) else ParseUint_loop s 0)"

text \<open>The \<^verbatim>\<open>int64\<close> that \<^verbatim>\<open>ParseInt\<close> returns is given as the integer it stands for.\<close>

definition ParseInt :: "string \<Rightarrow> int \<times> num_error option" where
  "ParseInt s =
     (if length s = 0 then (0, Some ErrSyntax)
      else
        let neg = (hd s = CHR ''-'');
            s1 = (if hd s = CHR ''+'' then tl s else if hd s = CHR ''-'' then tl s else s);
            (un, err) = ParseUint s1
        in if err \<noteq> None \<and> err \<noteq> Some ErrRange then (0, err)
           else
             let cutoff = (push_bit 63 1 :: uint64)
             in if \<not> neg \<and> un \<ge> cutoff then (sint (cutoff - 1), Some ErrRange)
                else if neg \<and> un > cutoff then (sint (- cutoff), Some ErrRange)
                else (sint (if neg then - un else un), None))"

definition Atoi :: "string \<Rightarrow> int \<times> num_error option" where
  "Atoi s = ParseInt s"

text \<open>\<^verbatim>\<open>r.Form\<close> after \<^verbatim>\<open>ParseForm\<close>: each key with its values; \<^verbatim>\<open>Get\<close> is the first
  value, the empty string when there is none.\<close>

type_synonym Values = "string \<rightharpoonup> string list"

definition Values_Get :: "Values \<Rightarrow> string \<Rightarrow> string" where
  "Values_Get form k = (case form k of None \<Rightarrow> '''' | Some [] \<Rightarrow> '''' | Some (v # vs) \<Rightarrow> v)"

definition queryArgs :: "Values \<Rightarrow> QueryArgs" where
  "queryArgs form =
     (let skip = fst (Atoi (Values_Get form ''skip''));
          limit = fst (Atoi (Values_Get form ''limit''));
          keyword = Values_Get form ''keyword''
      in \<lparr>Keyword = keyword, Skip = skip, Limit = limit\<rparr>)"

text \<open>The page the handler encodes as JSON, or the error it pushes.\<close>

definition indexHandler_GetPage ::
  "Values \<Rightarrow> index_state \<Rightarrow> (error + Repository list) \<times> index_state" where
  "indexHandler_GetPage form s = GetPage (queryArgs form) s"

section \<open>Notions the properties are stated with\<close>

text \<open>The tag row a successful push of \<open>event\<close> writes, up to its rowid and the clock
  reading.\<close>

definition pushed_row :: "Event \<Rightarrow> nat \<Rightarrow> time \<Rightarrow> tags_row" where
  "pushed_row event rowid t =
     \<lparr>t_id = rowid, t_repository = Repository (Target event), t_digest = Digest (Target event),
      t_url = URL (Target event), t_tag = parseTag (URL (Target event)), t_status = ''unset'',
      t_description = '''', t_target_url = '''', t_updated_at = t\<rparr>"

text \<open>The rows of \<^verbatim>\<open>tags\<close> under the key \<open>(repo, tag)\<close>.\<close>

definition rows_of :: "string \<Rightarrow> string \<Rightarrow> index_state \<Rightarrow> tags_row list" where
  "rows_of repo tag s = filter (\<lambda>t. t_repository t = repo \<and> t_tag t = tag) (tags s)"

text \<open>The repository names of a page, nothing for an error.\<close>

definition page_names :: "(error + Repository list) \<Rightarrow> string list" where
  "page_names r = (case r of Inl err \<Rightarrow> [] | Inr records \<Rightarrow> map Repository_Repository records)"

text \<open>A case-sensitive substring test, as the specification words the keyword filter:
  \<open>kw\<close> occurs in \<open>s\<close> at some position.\<close>

fun has_substring :: "string \<Rightarrow> string \<Rightarrow> bool" where
  "has_substring [] kw = (kw = [])"
| "has_substring (c # cs) kw = (take (length kw) (c # cs) = kw \<or> has_substring cs kw)"

text \<open>
  The integer a query parameter denotes, as the specification reads it: an optional sign
  and then decimal digits, at least one and nothing else; \<open>None\<close> for any other string.
  \<open>decimal_from acc ds\<close> is the value of the digits \<open>ds\<close> read after the value \<open>acc\<close>.
\<close>

definition decimal_from :: "nat \<Rightarrow> string \<Rightarrow> nat" where
  "decimal_from acc ds = foldl (\<lambda>a d. 10 * a + (of_char d - 48)) acc ds"

definition unsigned_part :: "string \<Rightarrow> string" where
  "unsigned_part s = (if s \<noteq> [] \<and> (hd s = CHR ''+'' \<or> hd s = CHR ''-'') then tl s else s)"

definition negative :: "string \<Rightarrow> bool" where
  "negative s \<longleftrightarrow> s \<noteq> [] \<and> hd s = CHR ''-''"

definition decimal_integer :: "string \<Rightarrow> int option" where
  "decimal_integer s =
     (let body = unsigned_part s
      in if body \<noteq> [] \<and> list_all is_digit body
         then Some (if negative s then - int (decimal_from 0 body) else int (decimal_from 0 body))
         else None)"

text \<open>The pagination arguments as the specification gives them: the parsed value when
  it is in range, the default when it is not or when there is no parsed value.\<close>

definition claimed_skip :: "string \<Rightarrow> int" where
  "claimed_skip p = (case decimal_integer p of None \<Rightarrow> 0 | Some n \<Rightarrow> if 0 \<le> n then n else 0)"

definition claimed_limit :: "string \<Rightarrow> int" where
  "claimed_limit p = (case decimal_integer p of None \<Rightarrow> 20 | Some n \<Rightarrow> if 0 < n then n else 20)"

text \<open>
  What \<^verbatim>\<open>Atoi\<close> makes of a parameter, stated without the loop: a decimal integer is cut
  to the range of \<^verbatim>\<open>int64\<close>; any other string gives 0, unless the digits it starts with
  (after the sign) already exceed \<open>2\<^sup>6\<^sup>4 - 1\<close>, which counts as out of range whatever
  follows.
\<close>

definition digit_run_overflows :: "string \<Rightarrow> bool" where
  "digit_run_overflows s \<longleftrightarrow> decimal_from 0 (takeWhile is_digit (unsigned_part s)) > 2 ^ 64 - 1"

definition Atoi_value :: "string \<Rightarrow> int" where
  "Atoi_value s =
     (case decimal_integer s of
        Some n \<Rightarrow> max (- (2 ^ 63)) (min n (2 ^ 63 - 1))
      | None \<Rightarrow>
          if digit_run_overflows s then (if negative s then - (2 ^ 63) else 2 ^ 63 - 1) else 0)"

section \<open>Example data\<close>

definition empty_catalog :: index_state where
  "empty_catalog =
     \<lparr>repositories = [], tags = [], faults = [], now = 1000, ticks = [1001, 1002, 1003]\<rparr>"

definition manifest_event :: "string \<Rightarrow> string \<Rightarrow> string \<Rightarrow> string \<Rightarrow> Event" where
  "manifest_event action repo digest url =
     \<lparr>Action = action,
      Target = \<lparr>MediaType = ManifestMediaType, Digest = digest, Repository = repo, URL = url\<rparr>\<rparr>"

definition push_alpha_app :: Event where
  "push_alpha_app =
     manifest_event ''push'' ''alpha/app'' ''sha256:0a''
       ''http://registry/v2/alpha/app/manifests/v1.2''"

definition delete_alpha_app :: Event where
  "delete_alpha_app =
     manifest_event ''delete'' ''alpha/app'' ''sha256:0a''
       ''http://registry/v2/alpha/app/manifests/v1.2''"

definition push_beta_app :: Event where
  "push_beta_app =
     manifest_event ''push'' ''beta/app'' ''sha256:0b''
       ''http://registry/v2/beta/app/manifests/latest''"

definition push_alpha_tool :: Event where
  "push_alpha_tool =
     manifest_event ''push'' ''alpha/tool'' ''sha256:0c''
       ''http://registry/v2/alpha/tool/manifests/v3''"

definition pull_alpha_app :: Event where
  "pull_alpha_app =
     manifest_event ''pull'' ''alpha/app'' ''sha256:0a''
       ''http://registry/v2/alpha/app/manifests/v1.2''"

definition push_layer :: Event where
  "push_layer =
     \<lparr>Action = ''push'',
      Target = \<lparr>MediaType = ''application/vnd.docker.container.image.rootfs.diff+x-gtar'',
                Digest = ''sha256:0d'', Repository = ''alpha/app'',
                URL = ''http://registry/v2/alpha/app/blobs/sha256:0d''\<rparr>\<rparr>"

definition push_alpha_app_v10 :: Event where
  "push_alpha_app_v10 =
     manifest_event ''push'' ''alpha/app'' ''sha256:0e''
       ''http://registry/v2/alpha/app/manifests/v1.0''"

text \<open>The catalog after the first push, and after three repositories were pushed.\<close>

definition one_tag_catalog :: index_state where
  "one_tag_catalog = snd (Write [push_alpha_app] empty_catalog)"

definition three_repositories :: index_state where
  "three_repositories = snd (Write [push_alpha_app, push_beta_app, push_alpha_tool] empty_catalog)"

text \<open>The catalog after tag \<^verbatim>\<open>v1.0\<close> of \<^verbatim>\<open>alpha/app\<close> was pushed as well, later than its
  tag \<^verbatim>\<open>v1.2\<close>.\<close>

definition four_tags :: index_state where
  "four_tags = snd (Write [push_alpha_app_v10] three_repositories)"

text \<open>A catalog whose third statement to come fails, and one whose next statement fails.\<close>

definition failing_now :: index_state where
  "failing_now = one_tag_catalog\<lparr>faults := [True]\<rparr>"


definition failing_catalog :: index_state where
  "failing_catalog = empty_catalog\<lparr>faults := [False, False, True]\<rparr>"

text \<open>A patch for a tag that was never pushed, and query strings.\<close>

definition patch_missing :: "string \<rightharpoonup> string" where
  "patch_missing =
     [''repository'' \<mapsto> ''alpha/app'', ''tag'' \<mapsto> ''v9'', ''status'' \<mapsto> ''verified'']"

definition form_in_range :: Values where
  "form_in_range = [''skip'' \<mapsto> [''40''], ''limit'' \<mapsto> [''-5'']]"

definition form_out_of_range :: Values where
  "form_out_of_range =
     [''skip'' \<mapsto> [''9223372036854775808''], ''limit'' \<mapsto> [''9223372036854775808'']]"

section \<open>The event sink: properties\<close>

subsection \<open>Statements and their outcome\<close>

lemma Exec_None: "Exec stmt s = (None, s') \<Longrightarrow> s' = stmt (s\<lparr>faults := tl (faults s)\<rparr>)"
  by (cases s) (auto simp: Exec_def split: list.splits if_splits)

lemma Exec_Some:
  "Exec stmt s = (Some e, s') \<Longrightarrow> s' = s\<lparr>faults := tl (faults s)\<rparr> \<and> e = ErrDriver"
  by (cases s) (auto simp: Exec_def split: list.splits if_splits)

lemma actions_differ: "EventActionPush \<noteq> EventActionDelete"
  by (simp add: EventActionPush_def EventActionDelete_def)

lemma add_tables:
  assumes "add e s = (None, s')"
  shows "repositories s' =
           filter (\<lambda>r. r_repository r \<noteq> Repository (Target e)) (repositories s)
           @ [\<lparr>r_id = next_rowid (map r_id (repositories s)),
               r_repository = Repository (Target e)\<rparr>]"
    and "tags s' =
           filter (\<lambda>t. \<not> (t_repository t = Repository (Target e) \<and>
                          t_tag t = parseTag (URL (Target e)))) (tags s)
           @ [pushed_row e (next_rowid (map t_id (tags s))) (now s)]"
  using assms
  by (auto simp: add_def Let_def time_Now_def replace_into_repositories_def
      replace_into_tags_def pushed_row_def
      split: prod.splits option.splits list.splits dest!: Exec_None)

lemma add_clock:
  assumes "add e s = (None, s')"
  shows "now s' = (case ticks s of [] \<Rightarrow> now s | t # ts \<Rightarrow> t)"
  using assms
  by (auto simp: add_def Let_def time_Now_def replace_into_repositories_def
      replace_into_tags_def
      split: prod.splits option.splits list.splits dest!: Exec_None)

lemma delete_tables:
  assumes "delete e s = (None, s')"
  shows "tags s' =
           filter (\<lambda>t. \<not> (t_repository t = Repository (Target e) \<and>
                          t_tag t = parseTag (URL (Target e)))) (tags s)"
    and "repositories s' =
           filter (\<lambda>r. r_repository r \<in> set (map t_repository (tags s'))) (repositories s)"
  using assms
  by (auto simp: delete_def Let_def delete_from_tags_def delete_orphan_repositories_def
      split: prod.splits option.splits dest!: Exec_None)

subsection \<open>Tag names\<close>

lemma split_from_no_sep: "sep \<notin> set s \<Longrightarrow> split_from sep cur s = [cur @ s]"
  by (induction s arbitrary: cur) auto

lemma split_from_append:
  "split_from sep cur (a @ sep # b) = split_from sep cur a @ split_from sep [] b"
  by (induction a arbitrary: cur) auto

lemma split_from_nonempty: "split_from sep cur s \<noteq> []"
  by (induction s arbitrary: cur) auto

lemma parseTag_no_slash: "CHR ''/'' \<notin> set url \<Longrightarrow> parseTag url = ''''"
  by (simp add: parseTag_def strings_Split_def split_from_no_sep)

lemma parseTag_last_segment:
  assumes "CHR ''/'' \<notin> set seg"
  shows "parseTag (pre @ CHR ''/'' # seg) = seg"
proof -
  have "split_from (CHR ''/'') [] (pre @ CHR ''/'' # seg)
          = split_from (CHR ''/'') [] pre @ [seg]"
    using assms by (simp add: split_from_append split_from_no_sep)
  moreover have "split_from (CHR ''/'') [] pre \<noteq> []"
    by (rule split_from_nonempty)
  ultimately show ?thesis
    by (cases "split_from (CHR ''/'') [] pre")
      (simp_all add: parseTag_def strings_Split_def Let_def nth_append)
qed

lemma parseTag_with_slash:
  assumes "CHR ''/'' \<in> set url"
  shows "(\<exists>pre. url = pre @ ''/'' @ parseTag url) \<and> CHR ''/'' \<notin> set (parseTag url)"
proof -
  from split_list_last [OF assms] obtain pre seg where
    u: "url = pre @ CHR ''/'' # seg" and seg: "CHR ''/'' \<notin> set seg"
    by blast
  from parseTag_last_segment [OF seg, of pre] u have "parseTag url = seg" by simp
  with u seg show ?thesis by auto
qed

text \<open>
  C6. The tag name the sink derives from a target URL is the part of the URL after its
  last slash, and the empty string when the URL has no slash; a URL that ends in
  \<^verbatim>\<open>/manifests/v1.2\<close> gives \<^verbatim>\<open>v1.2\<close>. A successful push writes its row under that tag
  name, and a successful delete removes the rows under that tag name.
\<close>

theorem parseTag_final_segment:
  "(CHR ''/'' \<notin> set url \<longrightarrow> parseTag url = '''') \<and>
   (CHR ''/'' \<in> set url \<longrightarrow>
      (\<exists>pre. url = pre @ ''/'' @ parseTag url) \<and> CHR ''/'' \<notin> set (parseTag url)) \<and>
   parseTag (prefix @ ''/manifests/v1.2'') = ''v1.2'' \<and>
   (add event s = (None, s') \<longrightarrow>
      (\<exists>t \<in> set (tags s'). t_repository t = Repository (Target event) \<and>
         t_url t = URL (Target event) \<and> t_tag t = parseTag (URL (Target event)))) \<and>
   (delete event s = (None, s') \<longrightarrow>
      tags s' = filter (\<lambda>t. \<not> (t_repository t = Repository (Target event) \<and>
                               t_tag t = parseTag (URL (Target event)))) (tags s))"
proof (intro conjI impI)
  assume "CHR ''/'' \<notin> set url"
  then show "parseTag url = ''''" by (rule parseTag_no_slash)
next
  assume "CHR ''/'' \<in> set url"
  then show "\<exists>pre. url = pre @ ''/'' @ parseTag url"
    and "CHR ''/'' \<notin> set (parseTag url)"
    using parseTag_with_slash by blast+
next
  have "parseTag ((prefix @ ''/manifests'') @ CHR ''/'' # ''v1.2'') = ''v1.2''"
    by (rule parseTag_last_segment) simp
  then show "parseTag (prefix @ ''/manifests/v1.2'') = ''v1.2''" by simp
next
  assume "add event s = (None, s')"
  from add_tables(2) [OF this]
  show "\<exists>t \<in> set (tags s'). t_repository t = Repository (Target event) \<and>
         t_url t = URL (Target event) \<and> t_tag t = parseTag (URL (Target event))"
    by (simp add: pushed_row_def)
next
  assume "delete event s = (None, s')"
  then show "tags s' = filter (\<lambda>t. \<not> (t_repository t = Repository (Target event) \<and>
                               t_tag t = parseTag (URL (Target event)))) (tags s)"
    by (rule delete_tables(1))
qed

theorem parseTag_final_segment_witness:
  "CHR ''/'' \<notin> set ''latest'' \<and> parseTag ''latest'' = '''' \<and>
   CHR ''/'' \<in> set ''http://registry/v2/alpha/app/manifests/v1.2'' \<and>
   parseTag ''http://registry/v2/alpha/app/manifests/v1.2'' = ''v1.2'' \<and>
   add push_alpha_app empty_catalog = (None, one_tag_catalog) \<and>
   (\<exists>t \<in> set (tags one_tag_catalog). t_repository t = ''alpha/app'' \<and> t_tag t = ''v1.2'') \<and>
   delete delete_alpha_app one_tag_catalog
     = (None, one_tag_catalog\<lparr>repositories := [], tags := []\<rparr>)"
proof -
  have a: "add push_alpha_app empty_catalog = (None, one_tag_catalog)"
    by code_simp
  have d: "delete delete_alpha_app one_tag_catalog
             = (None, one_tag_catalog\<lparr>repositories := [], tags := []\<rparr>)"
    by code_simp
  have n: "CHR ''/'' \<notin> set ''latest''" by simp
  have y: "CHR ''/'' \<in> set ''http://registry/v2/alpha/app/manifests/v1.2''" by simp
  have e: "Repository (Target push_alpha_app) = ''alpha/app''"
    "parseTag (URL (Target push_alpha_app)) = ''v1.2''"
    by code_simp+
  from parseTag_final_segment [of "''latest''"] n
  have 1: "parseTag ''latest'' = ''''" by blast
  from parseTag_final_segment [of _ "''http://registry/v2/alpha/app''"]
  have 2: "parseTag ''http://registry/v2/alpha/app/manifests/v1.2'' = ''v1.2''" by simp
  from parseTag_final_segment [of _ _ push_alpha_app empty_catalog one_tag_catalog] a
  have 3: "\<exists>t \<in> set (tags one_tag_catalog). t_repository t = ''alpha/app'' \<and> t_tag t = ''v1.2''"
    unfolding e by blast
  from n 1 y 2 a 3 d show ?thesis by blast
qed

subsection \<open>Batches\<close>

lemma Write_append:
  "Write (xs @ ys) s =
     (case Write xs s of (Some err, s') \<Rightarrow> (Some err, s') | (None, s') \<Rightarrow> Write ys s')"
  by (induction xs arbitrary: s) (auto split: prod.splits option.splits)

lemma Write_single_error:
  "Write [e] s = (Some err, s') \<Longrightarrow> Write (e # post) s = (Some err, s')"
  by (auto split: if_splits prod.splits option.splits)

lemma Write_single_ok:
  "Write [e] s = (None, s') \<Longrightarrow> Write (e # post) s = Write post s'"
  using Write_append [of "[e]" post s] by simp

lemma Write_error_decompose:
  "Write evs s = (Some err, s') \<Longrightarrow>
     \<exists>pre e post s1. evs = pre @ e # post \<and> Write pre s = (None, s1) \<and>
        Write [e] s1 = (Some err, s')"
proof (induction evs arbitrary: s)
  case Nil
  then show ?case by simp
next
  case (Cons a evs)
  obtain r s1 where one: "Write [a] s = (r, s1)"
    by (cases "Write [a] s")
  show ?case
  proof (cases r)
    case None
    with one have ok: "Write [a] s = (None, s1)" by simp
    from Write_single_ok [OF ok, of evs] Cons.prems
    have "Write evs s1 = (Some err, s')"
      by (simp only:)
    from Cons.IH [OF this] obtain pre e post s2 where
      d: "evs = pre @ e # post" "Write pre s1 = (None, s2)" "Write [e] s2 = (Some err, s')"
      by blast
    from Write_single_ok [OF ok, of pre] d(2)
    have "Write (a # pre) s = (None, s2)"
      by (simp only:)
    with d(1,3) show ?thesis
      by (intro exI [of _ "a # pre"] exI [of _ e] exI [of _ post] exI [of _ s2]) simp
  next
    case (Some e0)
    with one have bad: "Write [a] s = (Some e0, s1)" by simp
    from Write_single_error [OF this, of evs] Cons.prems
    have "e0 = err" "s1 = s'" by simp_all
    with bad show ?thesis
      by (intro exI [of _ "[]"] exI [of _ a] exI [of _ evs] exI [of _ s]) simp
  qed
qed

lemma Write_single_error_iff:
  "Write [e] s = (Some err, s') \<longleftrightarrow>
     MediaType (Target e) = ManifestMediaType \<and>
     (Action e = EventActionDelete \<and> delete e s = (Some err, s') \<or>
      Action e = EventActionPush \<and> add e s = (Some err, s'))"
  using actions_differ by (auto split: prod.splits option.splits)

lemma Write_after_delete:
  assumes "MediaType (Target e) = ManifestMediaType" and "Action e = EventActionDelete"
    and "delete e s = (None, s1)"
  shows "Write (e # rest) s = Write rest s1"
  using assms by simp

lemma Write_after_add:
  assumes "MediaType (Target e) = ManifestMediaType" and "Action e = EventActionPush"
    and "add e s = (None, s1)"
  shows "Write (e # rest) s = Write rest s1"
  using assms actions_differ by simp

text \<open>
  C9. A batch returns an error exactly when it splits into events that were all processed
  without error, a manifest event whose \<^verbatim>\<open>delete\<close> (for a delete event) or \<^verbatim>\<open>add\<close> (for a
  push event) returns that error, and the events after it. The error the sink returns
  is that first error, and the state it leaves is the state that \<^verbatim>\<open>delete\<close> or \<^verbatim>\<open>add\<close>
  left: no event after the failing one is applied. An event whose \<^verbatim>\<open>delete\<close> or \<^verbatim>\<open>add\<close>
  returns no error hands its state on to the rest of the batch, so that the mutations of
  the events before the failing one stay applied.
\<close>

theorem Write_stops_at_first_error:
  "(Write events s = (Some err, s') \<longleftrightarrow>
      (\<exists>pre e post s1. events = pre @ e # post \<and> Write pre s = (None, s1) \<and>
         MediaType (Target e) = ManifestMediaType \<and>
         (Action e = EventActionDelete \<and> delete e s1 = (Some err, s') \<or>
          Action e = EventActionPush \<and> add e s1 = (Some err, s')))) \<and>
   (MediaType (Target e0) = ManifestMediaType \<and> Action e0 = EventActionDelete \<and>
      delete e0 s = (None, s0) \<longrightarrow> Write (e0 # rest) s = Write rest s0) \<and>
   (MediaType (Target e0) = ManifestMediaType \<and> Action e0 = EventActionPush \<and>
      add e0 s = (None, s0) \<longrightarrow> Write (e0 # rest) s = Write rest s0)"
proof (intro conjI impI)
  show "Write events s = (Some err, s') \<longleftrightarrow>
      (\<exists>pre e post s1. events = pre @ e # post \<and> Write pre s = (None, s1) \<and>
         MediaType (Target e) = ManifestMediaType \<and>
         (Action e = EventActionDelete \<and> delete e s1 = (Some err, s') \<or>
          Action e = EventActionPush \<and> add e s1 = (Some err, s')))"
  proof
    assume "Write events s = (Some err, s')"
    from Write_error_decompose [OF this] obtain pre e post s1 where
      d: "events = pre @ e # post" "Write pre s = (None, s1)" "Write [e] s1 = (Some err, s')"
      by blast
    from d(3) have "MediaType (Target e) = ManifestMediaType \<and>
         (Action e = EventActionDelete \<and> delete e s1 = (Some err, s') \<or>
          Action e = EventActionPush \<and> add e s1 = (Some err, s'))"
      by (simp only: Write_single_error_iff)
    with d(1,2) show "\<exists>pre e post s1. events = pre @ e # post \<and> Write pre s = (None, s1) \<and>
         MediaType (Target e) = ManifestMediaType \<and>
         (Action e = EventActionDelete \<and> delete e s1 = (Some err, s') \<or>
          Action e = EventActionPush \<and> add e s1 = (Some err, s'))"
      by blast
  next
    assume "\<exists>pre e post s1. events = pre @ e # post \<and> Write pre s = (None, s1) \<and>
         MediaType (Target e) = ManifestMediaType \<and>
         (Action e = EventActionDelete \<and> delete e s1 = (Some err, s') \<or>
          Action e = EventActionPush \<and> add e s1 = (Some err, s'))"
    then obtain pre e post s1 where
      d: "events = pre @ e # post" "Write pre s = (None, s1)"
      and f: "MediaType (Target e) = ManifestMediaType \<and>
         (Action e = EventActionDelete \<and> delete e s1 = (Some err, s') \<or>
          Action e = EventActionPush \<and> add e s1 = (Some err, s'))"
      by blast
    from f have "Write [e] s1 = (Some err, s')"
      by (simp only: Write_single_error_iff)
    from Write_single_error [OF this] have "Write (e # post) s1 = (Some err, s')" .
    with d show "Write events s = (Some err, s')"
      by (simp add: Write_append)
  qed
next
  assume "MediaType (Target e0) = ManifestMediaType \<and> Action e0 = EventActionDelete \<and>
      delete e0 s = (None, s0)"
  then show "Write (e0 # rest) s = Write rest s0"
    using Write_after_delete by blast
next
  assume "MediaType (Target e0) = ManifestMediaType \<and> Action e0 = EventActionPush \<and>
      add e0 s = (None, s0)"
  then show "Write (e0 # rest) s = Write rest s0"
    using Write_after_add by blast
qed

theorem Write_stops_at_first_error_witness:
  "MediaType (Target push_alpha_app) = ManifestMediaType \<and>
   Action push_alpha_app = EventActionPush \<and>
   add push_alpha_app failing_catalog = (None, failing_now) \<and>
   Write [push_alpha_app] failing_catalog = (None, failing_now) \<and>
   MediaType (Target push_beta_app) = ManifestMediaType \<and>
   Action push_beta_app = EventActionPush \<and>
   add push_beta_app failing_now = (Some ErrDriver, one_tag_catalog) \<and>
   Write [push_alpha_app, push_beta_app, push_alpha_tool] failing_catalog
     = (Some ErrDriver, one_tag_catalog) \<and>
   MediaType (Target delete_alpha_app) = ManifestMediaType \<and>
   Action delete_alpha_app = EventActionDelete \<and>
   delete delete_alpha_app failing_now = (Some ErrDriver, one_tag_catalog) \<and>
   Write [delete_alpha_app, push_beta_app] failing_now = (Some ErrDriver, one_tag_catalog) \<and>
   map r_repository (repositories one_tag_catalog) = [''alpha/app'']"
proof -
  have pa: "MediaType (Target push_alpha_app) = ManifestMediaType"
    "Action push_alpha_app = EventActionPush"
    "add push_alpha_app failing_catalog = (None, failing_now)"
    by code_simp+
  have pb: "MediaType (Target push_beta_app) = ManifestMediaType"
    "Action push_beta_app = EventActionPush"
    "add push_beta_app failing_now = (Some ErrDriver, one_tag_catalog)"
    by code_simp+
  have da: "MediaType (Target delete_alpha_app) = ManifestMediaType"
    "Action delete_alpha_app = EventActionDelete"
    "delete delete_alpha_app failing_now = (Some ErrDriver, one_tag_catalog)"
    by code_simp+
  have names: "map r_repository (repositories one_tag_catalog) = [''alpha/app'']"
    by code_simp
  note T = Write_stops_at_first_error
  from T [where ?e0.0 = push_alpha_app and s = failing_catalog and ?s0.0 = failing_now
      and rest = "[]"] pa
  have 1: "Write [push_alpha_app] failing_catalog = (None, failing_now)"
    by simp
  have "\<exists>pre e post s1. [push_alpha_app, push_beta_app, push_alpha_tool] = pre @ e # post \<and>
          Write pre failing_catalog = (None, s1) \<and>
          MediaType (Target e) = ManifestMediaType \<and>
          (Action e = EventActionDelete \<and> delete e s1 = (Some ErrDriver, one_tag_catalog) \<or>
           Action e = EventActionPush \<and> add e s1 = (Some ErrDriver, one_tag_catalog))"
    using 1 pb
    by (intro exI [of _ "[push_alpha_app]"] exI [of _ push_beta_app]
        exI [of _ "[push_alpha_tool]"] exI [of _ failing_now]) simp
  with T [where events = "[push_alpha_app, push_beta_app, push_alpha_tool]"
      and s = failing_catalog and err = ErrDriver and s' = one_tag_catalog]
  have 2: "Write [push_alpha_app, push_beta_app, push_alpha_tool] failing_catalog
             = (Some ErrDriver, one_tag_catalog)"
    by blast
  have "\<exists>pre e post s1. [delete_alpha_app, push_beta_app] = pre @ e # post \<and>
          Write pre failing_now = (None, s1) \<and>
          MediaType (Target e) = ManifestMediaType \<and>
          (Action e = EventActionDelete \<and> delete e s1 = (Some ErrDriver, one_tag_catalog) \<or>
           Action e = EventActionPush \<and> add e s1 = (Some ErrDriver, one_tag_catalog))"
    using da
    by (intro exI [of _ "[]"] exI [of _ delete_alpha_app]
        exI [of _ "[push_beta_app]"] exI [of _ failing_now]) simp
  with T [where events = "[delete_alpha_app, push_beta_app]"
      and s = failing_now and err = ErrDriver and s' = one_tag_catalog]
  have 3: "Write [delete_alpha_app, push_beta_app] failing_now
             = (Some ErrDriver, one_tag_catalog)"
    by blast
  from pa 1 pb 2 da 3 names show ?thesis by (intro conjI)
qed

text \<open>
  C10. An event whose target is no manifest, or whose action is neither push nor delete,
  changes nothing and raises no error: alone it leaves the state as it is, and inside a
  batch the batch runs as if the event were not there.
\<close>

theorem Write_ignores_other_events:
  assumes "MediaType (Target e) \<noteq> ManifestMediaType \<or>
           (Action e \<noteq> EventActionPush \<and> Action e \<noteq> EventActionDelete)"
  shows "Write [e] s = (None, s) \<and> Write (pre @ e # post) s = Write (pre @ post) s"
proof -
  from assms have skip: "\<And>rest st. Write (e # rest) st = Write rest st"
    by auto
  then have "Write [e] s = (None, s)" by simp
  moreover have "Write (pre @ e # post) s = Write (pre @ post) s"
    by (simp only: Write_append skip)
  ultimately show ?thesis by blast
qed

theorem Write_ignores_other_events_witness:
  "MediaType (Target push_layer) \<noteq> ManifestMediaType \<and>
   Action pull_alpha_app \<noteq> EventActionPush \<and> Action pull_alpha_app \<noteq> EventActionDelete \<and>
   Write [push_layer] one_tag_catalog = (None, one_tag_catalog) \<and>
   Write [pull_alpha_app] one_tag_catalog = (None, one_tag_catalog) \<and>
   Write ([push_beta_app] @ pull_alpha_app # [push_alpha_tool]) one_tag_catalog
     = Write ([push_beta_app] @ [push_alpha_tool]) one_tag_catalog"
proof -
  have m: "MediaType (Target push_layer) \<noteq> ManifestMediaType"
    by code_simp
  have a: "Action pull_alpha_app \<noteq> EventActionPush \<and> Action pull_alpha_app \<noteq> EventActionDelete"
    by code_simp
  from Write_ignores_other_events [of push_layer one_tag_catalog] m
  have 1: "Write [push_layer] one_tag_catalog = (None, one_tag_catalog)" by blast
  from Write_ignores_other_events
    [of pull_alpha_app one_tag_catalog "[push_beta_app]" "[push_alpha_tool]"] a
  have 2: "Write [pull_alpha_app] one_tag_catalog = (None, one_tag_catalog)"
    "Write ([push_beta_app] @ pull_alpha_app # [push_alpha_tool]) one_tag_catalog
       = Write ([push_beta_app] @ [push_alpha_tool]) one_tag_catalog"
    by blast+
  from m a 1 2 show ?thesis by blast
qed

subsection \<open>Repositories and their tags\<close>

lemma names_after_replace:
  "set (map r_repository (filter (\<lambda>r. r_repository r \<noteq> R) rs @ [\<lparr>r_id = i, r_repository = R\<rparr>]))
     = insert R (set (map r_repository rs))"
  by auto

lemma tag_repositories_after_replace:
  "set (map t_repository
         (filter (\<lambda>t. \<not> (t_repository t = Repository (Target e) \<and> t_tag t = T)) ts
          @ [pushed_row e i u]))
     = insert (Repository (Target e)) (set (map t_repository ts))"
  by (auto simp: pushed_row_def)

lemma names_restricted:
  "set (map r_repository (filter (\<lambda>r. r_repository r \<in> A) rs)) = set (map r_repository rs) \<inter> A"
  by auto

lemma add_keeps_names_equal:
  assumes "set (map r_repository (repositories s)) = set (map t_repository (tags s))"
    and "add e s = (None, s')"
  shows "set (map r_repository (repositories s')) = set (map t_repository (tags s'))"
  unfolding add_tables [OF assms(2)] names_after_replace tag_repositories_after_replace
  using assms(1) by simp

lemma delete_keeps_names_equal:
  assumes "set (map r_repository (repositories s)) = set (map t_repository (tags s))"
    and "delete e s = (None, s')"
  shows "set (map r_repository (repositories s')) = set (map t_repository (tags s'))"
proof -
  have sub: "set (map t_repository (tags s')) \<subseteq> set (map t_repository (tags s))"
    unfolding delete_tables(1) [OF assms(2)] by auto
  have "set (map r_repository (repositories s')) =
          set (map r_repository (repositories s)) \<inter> set (map t_repository (tags s'))"
    by (subst delete_tables(2) [OF assms(2)]) (rule names_restricted)
  with sub assms(1) show ?thesis by blast
qed

lemma Write_keeps_names_equal:
  "set (map r_repository (repositories s)) = set (map t_repository (tags s)) \<Longrightarrow>
   Write evs s = (None, s') \<Longrightarrow>
   set (map r_repository (repositories s')) = set (map t_repository (tags s'))"
proof (induction evs arbitrary: s)
  case Nil
  then show ?case by simp
next
  case (Cons e evs)
  from Cons.prems(2) consider
      (del) s1 where "delete e s = (None, s1)" "Write evs s1 = (None, s')"
    | (push) s1 where "add e s = (None, s1)" "Write evs s1 = (None, s')"
    | (skip) "Write evs s = (None, s')"
    by (auto split: if_splits prod.splits option.splits)
  then show ?case
  proof cases
    case del
    from delete_keeps_names_equal [OF Cons.prems(1) del(1)] del(2) show ?thesis
      by (rule Cons.IH)
  next
    case push
    from add_keeps_names_equal [OF Cons.prems(1) push(1)] push(2) show ?thesis
      by (rule Cons.IH)
  next
    case skip
    from Cons.prems(1) skip show ?thesis
      by (rule Cons.IH)
  qed
qed

text \<open>
  C3. After any batch of events that was processed without error, starting from the
  empty catalog, a repository row with a given name exists if and only if some tag row
  names that repository. (A batch that succeeds has run delete and prune together for
  each delete event; the state in between is not a state after a processed event.)
\<close>

theorem repository_row_iff_tag_row:
  assumes "repositories s = []" and "tags s = []"
    and "Write events s = (None, s')"
  shows "(\<exists>r \<in> set (repositories s'). r_repository r = name) \<longleftrightarrow>
         (\<exists>t \<in> set (tags s'). t_repository t = name)"
proof -
  from assms(1,2) have "set (map r_repository (repositories s)) = set (map t_repository (tags s))"
    by simp
  from Write_keeps_names_equal [OF this assms(3)]
  have "name \<in> set (map r_repository (repositories s')) \<longleftrightarrow>
        name \<in> set (map t_repository (tags s'))"
    by simp
  then show ?thesis by auto
qed

theorem repository_row_iff_tag_row_witness:
  "repositories empty_catalog = [] \<and> tags empty_catalog = [] \<and>
   Write [push_alpha_app, push_beta_app, push_alpha_tool, delete_alpha_app] empty_catalog
     = (None, snd (Write [push_alpha_app, push_beta_app, push_alpha_tool, delete_alpha_app]
                     empty_catalog)) \<and>
   map r_repository (repositories (snd (Write
       [push_alpha_app, push_beta_app, push_alpha_tool, delete_alpha_app] empty_catalog)))
     = [''beta/app'', ''alpha/tool''] \<and>
   ((\<exists>r \<in> set (repositories (snd (Write
         [push_alpha_app, push_beta_app, push_alpha_tool, delete_alpha_app] empty_catalog))).
       r_repository r = ''alpha/app'') \<longleftrightarrow>
    (\<exists>t \<in> set (tags (snd (Write
         [push_alpha_app, push_beta_app, push_alpha_tool, delete_alpha_app] empty_catalog))).
       t_repository t = ''alpha/app'')) \<and>
   ((\<exists>r \<in> set (repositories (snd (Write
         [push_alpha_app, push_beta_app, push_alpha_tool, delete_alpha_app] empty_catalog))).
       r_repository r = ''beta/app'') \<longleftrightarrow>
    (\<exists>t \<in> set (tags (snd (Write
         [push_alpha_app, push_beta_app, push_alpha_tool, delete_alpha_app] empty_catalog))).
       t_repository t = ''beta/app''))"
proof -
  let ?evs = "[push_alpha_app, push_beta_app, push_alpha_tool, delete_alpha_app]"
  have r: "repositories empty_catalog = []" and t: "tags empty_catalog = []"
    by (simp_all add: empty_catalog_def)
  have ok: "Write ?evs empty_catalog = (None, snd (Write ?evs empty_catalog))"
    by code_simp
  have names: "map r_repository (repositories (snd (Write ?evs empty_catalog)))
                 = [''beta/app'', ''alpha/tool'']"
    by code_simp
  note inv = repository_row_iff_tag_row [OF r t ok]
  from r t ok names inv [of "''alpha/app''"] inv [of "''beta/app''"] show ?thesis
    by blast
qed

text \<open>
  C7. From the empty catalog, a push of tag \<open>T\<close> in repository \<open>R\<close> followed by a delete
  of the same tag, both processed without error, leaves no tag row and no repository row
  for \<open>R\<close>.
\<close>

theorem push_then_delete_leaves_nothing:
  assumes "repositories s = []" and "tags s = []"
    and "MediaType (Target push) = ManifestMediaType" and "Action push = EventActionPush"
    and "MediaType (Target del) = ManifestMediaType" and "Action del = EventActionDelete"
    and "Repository (Target push) = R" and "Repository (Target del) = R"
    and "parseTag (URL (Target push)) = T" and "parseTag (URL (Target del)) = T"
    and "Write [push, del] s = (None, s')"
  shows "filter (\<lambda>t. t_repository t = R) (tags s') = [] \<and>
         filter (\<lambda>r. r_repository r = R) (repositories s') = []"
proof -
  from assms(3,4,5,6,11) actions_differ obtain s1 where
    a: "add push s = (None, s1)" and d: "delete del s1 = (None, s')"
    by (auto split: prod.splits option.splits)
  from add_tables(2) [OF a] assms(2)
  have t1: "tags s1 = [pushed_row push (next_rowid []) (now s)]" by simp
  from delete_tables(1) [OF d] t1 assms(7,8,9,10)
  have t': "tags s' = []" by (simp add: pushed_row_def)
  from delete_tables(2) [OF d] t'
  have "repositories s' = []" by simp
  with t' show ?thesis by simp
qed

theorem push_then_delete_leaves_nothing_witness:
  "repositories empty_catalog = [] \<and> tags empty_catalog = [] \<and>
   MediaType (Target push_alpha_app) = ManifestMediaType \<and>
   Action push_alpha_app = EventActionPush \<and>
   MediaType (Target delete_alpha_app) = ManifestMediaType \<and>
   Action delete_alpha_app = EventActionDelete \<and>
   Repository (Target push_alpha_app) = ''alpha/app'' \<and>
   Repository (Target delete_alpha_app) = ''alpha/app'' \<and>
   parseTag (URL (Target push_alpha_app)) = ''v1.2'' \<and>
   parseTag (URL (Target delete_alpha_app)) = ''v1.2'' \<and>
   tags (snd (Write [push_alpha_app] empty_catalog)) \<noteq> [] \<and>
   Write [push_alpha_app, delete_alpha_app] empty_catalog
     = (None, snd (Write [push_alpha_app, delete_alpha_app] empty_catalog)) \<and>
   filter (\<lambda>t. t_repository t = ''alpha/app'')
     (tags (snd (Write [push_alpha_app, delete_alpha_app] empty_catalog))) = [] \<and>
   filter (\<lambda>r. r_repository r = ''alpha/app'')
     (repositories (snd (Write [push_alpha_app, delete_alpha_app] empty_catalog))) = []"
proof -
  have h: "repositories empty_catalog = []" "tags empty_catalog = []"
    "MediaType (Target push_alpha_app) = ManifestMediaType"
    "Action push_alpha_app = EventActionPush"
    "MediaType (Target delete_alpha_app) = ManifestMediaType"
    "Action delete_alpha_app = EventActionDelete"
    "Repository (Target push_alpha_app) = ''alpha/app''"
    "Repository (Target delete_alpha_app) = ''alpha/app''"
    "parseTag (URL (Target push_alpha_app)) = ''v1.2''"
    "parseTag (URL (Target delete_alpha_app)) = ''v1.2''"
    "Write [push_alpha_app, delete_alpha_app] empty_catalog
       = (None, snd (Write [push_alpha_app, delete_alpha_app] empty_catalog))"
    by code_simp+
  have p: "tags (snd (Write [push_alpha_app] empty_catalog)) \<noteq> []"
    by code_simp
  from push_then_delete_leaves_nothing [OF h] h p show ?thesis
    by blast
qed

subsection \<open>Pushing the same event again\<close>

lemma rows_of_after_add:
  assumes "add e s = (None, s')"
  shows "rows_of (Repository (Target e)) (parseTag (URL (Target e))) s'
           = [pushed_row e (next_rowid (map t_id (tags s))) (now s)]"
proof -
  have "filter (\<lambda>t. t_repository t = Repository (Target e) \<and> t_tag t = parseTag (URL (Target e)))
          (filter (\<lambda>t. \<not> (t_repository t = Repository (Target e) \<and>
                           t_tag t = parseTag (URL (Target e)))) (tags s)) = []"
    by (auto simp: filter_empty_conv)
  then show ?thesis
    unfolding rows_of_def add_tables(2) [OF assms]
    by (simp add: pushed_row_def)
qed

text \<open>
  C4, as the code has it. Pushing the same event twice leaves, like pushing it once, a
  single row under the key (repository, tag), with the digest and URL of the event,
  status \<^verbatim>\<open>unset\<close>, and empty description and target reference. The row is the same up
  to two fields: \<^verbatim>\<open>updated_at\<close> is the reading of the clock at the last application (the
  first reading after one push, the second after two), and the rowid is allotted anew.
\<close>

theorem push_twice_same_row_up_to_clock:
  assumes "MediaType (Target e) = ManifestMediaType" and "Action e = EventActionPush"
    and "Write [e] s = (None, s1)" and "Write [e, e] s = (None, s2)"
  shows "\<exists>id1 id2.
     rows_of (Repository (Target e)) (parseTag (URL (Target e))) s1
       = [pushed_row e id1 (now s)] \<and>
     rows_of (Repository (Target e)) (parseTag (URL (Target e))) s2
       = [pushed_row e id2 (case ticks s of [] \<Rightarrow> now s | t # ts \<Rightarrow> t)]"
proof -
  from assms(1,2,3) actions_differ have a1: "add e s = (None, s1)"
    by (auto split: prod.splits option.splits)
  from Write_single_ok [OF assms(3), of "[e]"] assms(4)
  have "Write [e] s1 = (None, s2)" by (simp only:)
  with assms(1,2) actions_differ have a2: "add e s1 = (None, s2)"
    by (auto split: prod.splits option.splits)
  from rows_of_after_add [OF a1] rows_of_after_add [OF a2] add_clock [OF a1]
  show ?thesis by auto
qed

theorem push_twice_same_row_up_to_clock_witness:
  "MediaType (Target push_alpha_app) = ManifestMediaType \<and>
   Action push_alpha_app = EventActionPush \<and>
   Write [push_alpha_app] empty_catalog = (None, one_tag_catalog) \<and>
   Write [push_alpha_app, push_alpha_app] empty_catalog
     = (None, snd (Write [push_alpha_app, push_alpha_app] empty_catalog)) \<and>
   (\<exists>id1 id2.
      rows_of ''alpha/app'' ''v1.2'' one_tag_catalog = [pushed_row push_alpha_app id1 1000] \<and>
      rows_of ''alpha/app'' ''v1.2'' (snd (Write [push_alpha_app, push_alpha_app] empty_catalog))
        = [pushed_row push_alpha_app id2 1001])"
proof -
  have h: "MediaType (Target push_alpha_app) = ManifestMediaType"
    "Action push_alpha_app = EventActionPush"
    "Write [push_alpha_app] empty_catalog = (None, one_tag_catalog)"
    "Write [push_alpha_app, push_alpha_app] empty_catalog
       = (None, snd (Write [push_alpha_app, push_alpha_app] empty_catalog))"
    by code_simp+
  have v: "Repository (Target push_alpha_app) = ''alpha/app''"
    "parseTag (URL (Target push_alpha_app)) = ''v1.2''"
    "now empty_catalog = 1000"
    "(case ticks empty_catalog of [] \<Rightarrow> 1000 | t # ts \<Rightarrow> t) = 1001"
    by code_simp+
  from push_twice_same_row_up_to_clock [OF h] h show ?thesis
    unfolding v by blast
qed

text \<open>
  C4, as it is stated, fails on the clock: \<^verbatim>\<open>add\<close> stamps the row with \<^verbatim>\<open>time.Now()\<close>,
  so the tag the query service shows after two pushes of one event is not the tag it
  shows after one. Both batches succeed; the tags differ in \<^verbatim>\<open>UpdatedAt\<close> only.
\<close>

theorem push_twice_differs_in_updated_at:
  "fst (Write [push_alpha_app] empty_catalog) = None \<and>
   fst (Write [push_alpha_app, push_alpha_app] empty_catalog) = None \<and>
   map Tag_UpdatedAt (select_tags ''alpha/app'' (snd (Write [push_alpha_app] empty_catalog)))
     = [1000] \<and>
   map Tag_UpdatedAt
     (select_tags ''alpha/app'' (snd (Write [push_alpha_app, push_alpha_app] empty_catalog)))
     = [1001] \<and>
   select_tags ''alpha/app'' (snd (Write [push_alpha_app, push_alpha_app] empty_catalog))
     \<noteq> select_tags ''alpha/app'' (snd (Write [push_alpha_app] empty_catalog))"
  by code_simp

section \<open>The status patch: properties\<close>

lemma SetTagStatus_tables:
  assumes "SetTagStatus repo tag status description target_url s = (err, s')"
  shows "repositories s' = repositories s"
    and "err = None \<or> err = Some ErrDriver"
    and "err = None \<Longrightarrow>
           tags s' = map (\<lambda>t. if t_repository t = repo \<and> t_tag t = tag
                               then t\<lparr>t_status := status, t_description := description,
                                      t_target_url := target_url\<rparr>
                               else t) (tags s)"
    and "err \<noteq> None \<Longrightarrow> tags s' = tags s"
  using assms
  by (auto simp: SetTagStatus_def Exec_def update_tags_def split: list.splits if_splits)

lemma SetTagStatus_never_ErrNoRows:
  "fst (SetTagStatus repo tag status description target_url s) \<noteq> Some ErrNoRows"
  by (auto simp: SetTagStatus_def Exec_def split: list.splits)

lemma tagStatusHandler_never_404:
  "fst (tagStatusHandler_SetTagStatus body s) \<noteq> 404"
proof (cases body)
  case None
  then show ?thesis by (simp add: tagStatusHandler_SetTagStatus_def)
next
  case (Some req)
  obtain err s' where r: "SetTagStatus (map_index req ''repository'') (map_index req ''tag'')
      (map_index req ''status'') (map_index req ''description'')
      (map_index req ''target_url'') s = (err, s')"
    by (cases "SetTagStatus (map_index req ''repository'') (map_index req ''tag'')
      (map_index req ''status'') (map_index req ''description'')
      (map_index req ''target_url'') s")
  from SetTagStatus_tables(2) [OF r] show ?thesis
    by (auto simp: tagStatusHandler_SetTagStatus_def Some r)
qed

lemma SetTagStatus_missing_row_unchanged:
  assumes "rows_of repo tag s = []"
    and "SetTagStatus repo tag status description target_url s = (err, s')"
  shows "repositories s' = repositories s \<and> tags s' = tags s"
proof -
  from assms(1) have none: "\<forall>t \<in> set (tags s). \<not> (t_repository t = repo \<and> t_tag t = tag)"
    by (simp add: rows_of_def filter_empty_conv)
  have "tags s' = tags s"
  proof (cases err)
    case None
    from SetTagStatus_tables(3) [OF assms(2) None] none show ?thesis
      by (simp add: map_idI)
  next
    case (Some e)
    then show ?thesis using SetTagStatus_tables(4) [OF assms(2)] by simp
  qed
  with SetTagStatus_tables(1) [OF assms(2)] show ?thesis by simp
qed

text \<open>
  C1. A patch for a (repository, tag) pair that has no row: the statement updates zero
  rows and \<^verbatim>\<open>Exec\<close> reports no error, so \<^verbatim>\<open>SetTagStatus\<close> returns \<^verbatim>\<open>nil\<close> and the
  handler answers 204, not 404; the branch of the handler for \<^verbatim>\<open>sql.ErrNoRows\<close> is
  never taken. No row is created and both tables stay as they were. Here on the catalog
  that holds the tag \<^verbatim>\<open>v1.2\<close> of \<^verbatim>\<open>alpha/app\<close> only, patched for the tag \<^verbatim>\<open>v9\<close>.
\<close>

theorem patch_of_missing_tag_answers_204:
  "rows_of ''alpha/app'' ''v9'' one_tag_catalog = [] \<and>
   SetTagStatus ''alpha/app'' ''v9'' ''verified'' '''' '''' one_tag_catalog
     = (None, one_tag_catalog) \<and>
   tagStatusHandler_SetTagStatus (Some patch_missing) one_tag_catalog = (204, one_tag_catalog)"
  by code_simp

text \<open>
  C5. A patch leaves the table of repositories and the number and order of the tag rows
  as they are; in every tag row it keeps the rowid, the key, the digest, the URL and the
  updated-at value; a row under another key is not changed at all; and when the patch
  succeeds, the rows under its key carry the new status, description and target
  reference.
\<close>

theorem SetTagStatus_changes_only_status_fields:
  assumes "SetTagStatus repo tag status description target_url s = (err, s')"
  shows "repositories s' = repositories s \<and> length (tags s') = length (tags s) \<and>
     (\<forall>i < length (tags s).
        t_id (tags s' ! i) = t_id (tags s ! i) \<and>
        t_repository (tags s' ! i) = t_repository (tags s ! i) \<and>
        t_tag (tags s' ! i) = t_tag (tags s ! i) \<and>
        t_digest (tags s' ! i) = t_digest (tags s ! i) \<and>
        t_url (tags s' ! i) = t_url (tags s ! i) \<and>
        t_updated_at (tags s' ! i) = t_updated_at (tags s ! i) \<and>
        (\<not> (t_repository (tags s ! i) = repo \<and> t_tag (tags s ! i) = tag) \<longrightarrow>
           tags s' ! i = tags s ! i) \<and>
        (err = None \<and> t_repository (tags s ! i) = repo \<and> t_tag (tags s ! i) = tag \<longrightarrow>
           t_status (tags s' ! i) = status \<and> t_description (tags s' ! i) = description \<and>
           t_target_url (tags s' ! i) = target_url))"
proof (cases err)
  case None
  from SetTagStatus_tables(3) [OF assms None] SetTagStatus_tables(1) [OF assms]
  show ?thesis by simp
next
  case (Some e)
  then have "tags s' = tags s" using SetTagStatus_tables(4) [OF assms] by simp
  with SetTagStatus_tables(1) [OF assms] Some show ?thesis by simp
qed

theorem SetTagStatus_changes_only_status_fields_witness:
  "SetTagStatus ''beta/app'' ''latest'' ''verified'' ''scanned'' ''http://ci/42''
     three_repositories
     = (None, snd (SetTagStatus ''beta/app'' ''latest'' ''verified'' ''scanned''
                     ''http://ci/42'' three_repositories)) \<and>
   (1::nat) < length (tags three_repositories) \<and>
   t_repository (tags three_repositories ! 1) = ''beta/app'' \<and>
   t_tag (tags three_repositories ! 1) = ''latest'' \<and>
   t_digest (tags (snd (SetTagStatus ''beta/app'' ''latest'' ''verified'' ''scanned''
       ''http://ci/42'' three_repositories)) ! 1) = t_digest (tags three_repositories ! 1) \<and>
   t_updated_at (tags (snd (SetTagStatus ''beta/app'' ''latest'' ''verified'' ''scanned''
       ''http://ci/42'' three_repositories)) ! 1) = t_updated_at (tags three_repositories ! 1) \<and>
   t_status (tags (snd (SetTagStatus ''beta/app'' ''latest'' ''verified'' ''scanned''
       ''http://ci/42'' three_repositories)) ! 1) = ''verified'' \<and>
   t_status (tags three_repositories ! 1) = ''unset'' \<and>
   (0::nat) < length (tags three_repositories) \<and>
   \<not> (t_repository (tags three_repositories ! 0) = ''beta/app'' \<and>
      t_tag (tags three_repositories ! 0) = ''latest'') \<and>
   tags (snd (SetTagStatus ''beta/app'' ''latest'' ''verified'' ''scanned''
       ''http://ci/42'' three_repositories)) ! 0 = tags three_repositories ! 0"
proof -
  let ?s' = "snd (SetTagStatus ''beta/app'' ''latest'' ''verified'' ''scanned''
                     ''http://ci/42'' three_repositories)"
  have run: "SetTagStatus ''beta/app'' ''latest'' ''verified'' ''scanned'' ''http://ci/42''
     three_repositories = (None, ?s')"
    by code_simp
  have i1: "(1::nat) < length (tags three_repositories)"
    and k1: "t_repository (tags three_repositories ! 1) = ''beta/app''"
      "t_tag (tags three_repositories ! 1) = ''latest''"
    and u1: "t_status (tags three_repositories ! 1) = ''unset''"
    and i0: "(0::nat) < length (tags three_repositories)"
    and k0: "\<not> (t_repository (tags three_repositories ! 0) = ''beta/app'' \<and>
      t_tag (tags three_repositories ! 0) = ''latest'')"
    by code_simp+
  note frame = SetTagStatus_changes_only_status_fields [OF run]
  from frame i1 k1 have
    "t_digest (tags ?s' ! 1) = t_digest (tags three_repositories ! 1)"
    "t_updated_at (tags ?s' ! 1) = t_updated_at (tags three_repositories ! 1)"
    "t_status (tags ?s' ! 1) = ''verified''"
    by blast+
  moreover from frame i0 k0 have "tags ?s' ! 0 = tags three_repositories ! 0"
    by blast
  ultimately show ?thesis using run i1 k1 u1 i0 k0 by blast
qed

section \<open>The query service: properties\<close>

subsection \<open>The pattern match\<close>

lemma like_percent_only: "like ''%'' s"
  by (induction s) auto

lemma like_percent:
  "like (CHR ''%'' # ps) s \<longleftrightarrow> (\<exists>k \<le> length s. like ps (drop k s))"
proof (induction s)
  case Nil
  show ?case by simp
next
  case (Cons c cs)
  have "(\<exists>k \<le> length (c # cs). like ps (drop k (c # cs))) \<longleftrightarrow>
        like ps (c # cs) \<or> (\<exists>k \<le> length cs. like ps (drop k cs))"
  proof
    assume "\<exists>k \<le> length (c # cs). like ps (drop k (c # cs))"
    then obtain k where k: "k \<le> length (c # cs)" "like ps (drop k (c # cs))" by blast
    show "like ps (c # cs) \<or> (\<exists>k \<le> length cs. like ps (drop k cs))"
    proof (cases k)
      case 0
      with k show ?thesis by simp
    next
      case (Suc j)
      with k have "j \<le> length cs" "like ps (drop j cs)" by simp_all
      then show ?thesis by blast
    qed
  next
    assume "like ps (c # cs) \<or> (\<exists>k \<le> length cs. like ps (drop k cs))"
    then show "\<exists>k \<le> length (c # cs). like ps (drop k (c # cs))"
    proof
      assume "like ps (c # cs)"
      then show ?thesis by (intro exI [of _ 0]) simp
    next
      assume "\<exists>k \<le> length cs. like ps (drop k cs)"
      then obtain k where "k \<le> length cs" "like ps (drop k cs)" by blast
      then show ?thesis by (intro exI [of _ "Suc k"]) simp
    qed
  qed
  with Cons.IH show ?case by simp
qed

lemma like_literal:
  assumes "CHR ''%'' \<notin> set kw" and "CHR ''_'' \<notin> set kw"
  shows "like (kw @ ps) s \<longleftrightarrow>
           length kw \<le> length s \<and>
           map ascii_lower (take (length kw) s) = map ascii_lower kw \<and>
           like ps (drop (length kw) s)"
  using assms
proof (induction kw arbitrary: s)
  case Nil
  show ?case by simp
next
  case (Cons p kw)
  then have p: "p \<noteq> CHR ''%''" "p \<noteq> CHR ''_''" and kw: "CHR ''%'' \<notin> set kw" "CHR ''_'' \<notin> set kw"
    by auto
  show ?case
  proof (cases s)
    case Nil
    with p show ?thesis by simp
  next
    case (Cons c cs)
    with p Cons.IH [OF kw, of cs] show ?thesis by auto
  qed
qed

lemma like_keyword:
  assumes "CHR ''%'' \<notin> set kw" and "CHR ''_'' \<notin> set kw"
  shows "like (''%'' @ kw @ ''%'') name \<longleftrightarrow>
           (\<exists>pre suf. map ascii_lower name = pre @ map ascii_lower kw @ suf)"
proof
  assume "like (''%'' @ kw @ ''%'') name"
  then obtain k where k: "k \<le> length name" "like (kw @ ''%'') (drop k name)"
    by (auto simp: like_percent)
  from k(2) have m: "map ascii_lower (take (length kw) (drop k name)) = map ascii_lower kw"
    by (simp add: like_literal [OF assms])
  let ?A = "take k name" and ?B = "take (length kw) (drop k name)"
    and ?C = "drop (length kw) (drop k name)"
  have "name = ?A @ ?B @ ?C"
    by (simp only: append_take_drop_id)
  then have "map ascii_lower name = map ascii_lower (?A @ ?B @ ?C)"
    by (rule arg_cong)
  then have "map ascii_lower name = map ascii_lower ?A @ map ascii_lower kw @ map ascii_lower ?C"
    by (simp only: map_append m)
  then show "\<exists>pre suf. map ascii_lower name = pre @ map ascii_lower kw @ suf"
    by blast
next
  assume "\<exists>pre suf. map ascii_lower name = pre @ map ascii_lower kw @ suf"
  then obtain pre suf where e: "map ascii_lower name = pre @ map ascii_lower kw @ suf"
    by blast
  let ?k = "length pre"
  have "length (map ascii_lower name) = length (pre @ map ascii_lower kw @ suf)"
    by (simp only: e)
  then have len: "length name = length pre + length kw + length suf"
    by simp
  have "drop ?k (map ascii_lower name) = map ascii_lower kw @ suf"
    unfolding e by simp
  then have "take (length kw) (drop ?k (map ascii_lower name)) = map ascii_lower kw"
    by simp
  then have m: "map ascii_lower (take (length kw) (drop ?k name)) = map ascii_lower kw"
    by (simp only: take_map drop_map)
  from len have "length kw \<le> length (drop ?k name)" by simp
  with m have "like (kw @ ''%'') (drop ?k name)"
    by (simp only: like_literal [OF assms] like_percent_only simp_thms)
  moreover from len have "?k \<le> length name" by simp
  ultimately have "\<exists>k \<le> length name. like (kw @ ''%'') (drop k name)"
    by blast
  then show "like (''%'' @ kw @ ''%'') name"
    by (simp add: like_percent)
qed

lemma has_substring_iff: "has_substring s kw \<longleftrightarrow> (\<exists>pre suf. s = pre @ kw @ suf)"
proof (induction s)
  case Nil
  show ?case by auto
next
  case (Cons c cs)
  have "(\<exists>pre suf. c # cs = pre @ kw @ suf) \<longleftrightarrow>
        take (length kw) (c # cs) = kw \<or> (\<exists>pre suf. cs = pre @ kw @ suf)"
  proof
    assume "\<exists>pre suf. c # cs = pre @ kw @ suf"
    then obtain pre suf where e: "c # cs = pre @ kw @ suf" by blast
    show "take (length kw) (c # cs) = kw \<or> (\<exists>pre suf. cs = pre @ kw @ suf)"
    proof (cases pre)
      case Nil
      with e have "take (length kw) (c # cs) = kw" by simp
      then show ?thesis ..
    next
      case (Cons p pre')
      with e have "cs = pre' @ kw @ suf" by simp
      then show ?thesis by blast
    qed
  next
    assume "take (length kw) (c # cs) = kw \<or> (\<exists>pre suf. cs = pre @ kw @ suf)"
    then show "\<exists>pre suf. c # cs = pre @ kw @ suf"
    proof
      assume "take (length kw) (c # cs) = kw"
      then have "c # cs = [] @ kw @ drop (length kw) (c # cs)"
        by (metis append_Nil append_take_drop_id)
      then show ?thesis by blast
    next
      assume "\<exists>pre suf. cs = pre @ kw @ suf"
      then obtain pre suf where "cs = pre @ kw @ suf" by blast
      then have "c # cs = (c # pre) @ kw @ suf" by simp
      then show ?thesis by blast
    qed
  qed
  with Cons.IH show ?case by simp
qed

subsection \<open>A page without storage errors\<close>

lemma prepare_fields:
  "Keyword (prepare a) = Keyword a"
  "Skip (prepare a) = (if Skip a < 0 then 0 else Skip a)"
  "Limit (prepare a) = (if Limit a < 1 then 20 else Limit a)"
  by (simp_all add: prepare_def Let_def defaultLimit_def)

lemma scan_rows_no_faults:
  "faults s = [] \<Longrightarrow>
   scan_rows rows records s =
     (records @ map (\<lambda>name. \<lparr>Repository_Repository = name,
                              Repository_Tags = select_tags name s\<rparr>) rows, s)"
  by (induction rows arbitrary: records) (simp_all add: Query_def)

lemma GetPage_no_faults:
  assumes "faults s = []"
  shows "GetPage args s =
     (Inr (map (\<lambda>name. \<lparr>Repository_Repository = name, Repository_Tags = select_tags name s\<rparr>)
             (select_repositories
                (if Keyword args \<noteq> [] then Some (''%'' @ Keyword args @ ''%'') else None)
                (Limit (prepare args)) (Skip (prepare args)) s)), s)"
  using assms
  by (simp add: GetPage_def Let_def Prepare_def Exec_def Query_def scan_rows_no_faults
      prepare_fields(1))

lemma select_tags_mset:
  "mset (select_tags repo s) = mset (map scan_Tag (filter (\<lambda>t. t_repository t = repo) (tags s)))"
  by (simp add: select_tags_def)

text \<open>
  C2, as the code has it. Take a catalog whose repository names are ASCII text, a
  non-empty keyword of ASCII text that makes a pattern of at most 50000 bytes, and no
  storage error. The page lists, in table order and cut to limit and offset, the
  repositories whose name matches the \<^verbatim>\<open>LIKE\<close> pattern \<^verbatim>\<open>%keyword%\<close>. For a keyword
  without \<^verbatim>\<open>%\<close> and \<^verbatim>\<open>_\<close> these are the names that contain the keyword when the case
  of ASCII letters is ignored. Each repository listed comes with all its tags, each once.
\<close>

theorem GetPage_keyword_filter:
  assumes "faults s = []" and "Keyword args \<noteq> []"
    and "length (Keyword args) + 2 \<le> 50000" and "ascii_text (Keyword args)"
    and "\<forall>r \<in> set (repositories s). ascii_text (r_repository r)"
  shows "\<exists>records. GetPage args s = (Inr records, s) \<and>
     map Repository_Repository records =
       take (nat (Limit (prepare args))) (drop (nat (Skip (prepare args)))
         (filter (like (''%'' @ Keyword args @ ''%'')) (map r_repository (repositories s)))) \<and>
     (\<forall>r \<in> set records.
        mset (Repository_Tags r) =
          mset (map scan_Tag
                 (filter (\<lambda>t. t_repository t = Repository_Repository r) (tags s)))) \<and>
     (CHR ''%'' \<notin> set (Keyword args) \<and> CHR ''_'' \<notin> set (Keyword args) \<longrightarrow>
        (\<forall>r \<in> set (repositories s).
           like (''%'' @ Keyword args @ ''%'') (r_repository r) \<longleftrightarrow>
           (\<exists>pre suf. map ascii_lower (r_repository r)
                        = pre @ map ascii_lower (Keyword args) @ suf)))"
proof -
  let ?rows = "select_repositories (Some (''%'' @ Keyword args @ ''%''))
                 (Limit (prepare args)) (Skip (prepare args)) s"
  let ?records = "map (\<lambda>name. \<lparr>Repository_Repository = name,
                                 Repository_Tags = select_tags name s\<rparr>) ?rows"
  have page: "GetPage args s = (Inr ?records, s)"
    using GetPage_no_faults [OF assms(1), of args] assms(2) by simp
  have lim: "\<not> Limit (prepare args) < 0"
    by (simp add: prepare_fields)
  have "length (''%'' @ Keyword args @ ''%'') = length (Keyword args) + 2"
    by simp
  with assms(3)
  have short: "\<not> int (length (''%'' @ Keyword args @ ''%'')) > SQLITE_MAX_LIKE_PATTERN_LENGTH"
    unfolding SQLITE_MAX_LIKE_PATTERN_LENGTH_def by linarith
  have "map Repository_Repository ?records = ?rows"
    by (simp add: comp_def)
  also have "?rows =
       take (nat (Limit (prepare args))) (drop (nat (Skip (prepare args)))
         (filter (like (''%'' @ Keyword args @ ''%'')) (map r_repository (repositories s))))"
    unfolding select_repositories_def option.case if_not_P [OF short]
    using lim by (simp add: limit_offset_def Let_def filter_map comp_def)
  finally have names: "map Repository_Repository ?records =
       take (nat (Limit (prepare args))) (drop (nat (Skip (prepare args)))
         (filter (like (''%'' @ Keyword args @ ''%'')) (map r_repository (repositories s))))" .
  have tags: "\<forall>r \<in> set ?records.
        mset (Repository_Tags r) =
          mset (map scan_Tag
                 (filter (\<lambda>t. t_repository t = Repository_Repository r) (tags s)))"
    using select_tags_mset by auto
  have fold: "CHR ''%'' \<notin> set (Keyword args) \<and> CHR ''_'' \<notin> set (Keyword args) \<longrightarrow>
        (\<forall>r \<in> set (repositories s).
           like (''%'' @ Keyword args @ ''%'') (r_repository r) \<longleftrightarrow>
           (\<exists>pre suf. map ascii_lower (r_repository r)
                        = pre @ map ascii_lower (Keyword args) @ suf))"
    using like_keyword by blast
  from page names tags fold show ?thesis by blast
qed

theorem GetPage_keyword_filter_witness:
  "faults four_tags = [] \<and>
   Keyword \<lparr>Keyword = ''alpha'', Skip = 0, Limit = 0\<rparr> \<noteq> [] \<and>
   length (Keyword \<lparr>Keyword = ''alpha'', Skip = 0, Limit = 0\<rparr>) + 2 \<le> 50000 \<and>
   ascii_text (Keyword \<lparr>Keyword = ''alpha'', Skip = 0, Limit = 0\<rparr>) \<and>
   list_all (\<lambda>r. ascii_text (r_repository r)) (repositories four_tags) \<and>
   map r_repository (repositories four_tags) = [''beta/app'', ''alpha/tool'', ''alpha/app''] \<and>
   (\<exists>records.
      GetPage \<lparr>Keyword = ''alpha'', Skip = 0, Limit = 0\<rparr> four_tags = (Inr records, four_tags) \<and>
      map Repository_Repository records = [''alpha/tool'', ''alpha/app'']) \<and>
   map (\<lambda>r. map Tag_Tag (Repository_Tags r))
     (projr (fst (GetPage \<lparr>Keyword = ''alpha'', Skip = 0, Limit = 0\<rparr> four_tags)))
     = [[''v3''], [''v1.0'', ''v1.2'']]"
proof -
  let ?args = "\<lparr>Keyword = ''alpha'', Skip = 0, Limit = 0\<rparr>"
  have v: "four_tags =
      \<lparr>repositories =
         [\<lparr>r_id = 2, r_repository = ''beta/app''\<rparr>,
          \<lparr>r_id = 3, r_repository = ''alpha/tool''\<rparr>,
          \<lparr>r_id = 4, r_repository = ''alpha/app''\<rparr>],
       tags =
         [pushed_row push_alpha_app 1 1000, pushed_row push_beta_app 2 1001,
          pushed_row push_alpha_tool 3 1002, pushed_row push_alpha_app_v10 4 1003],
       faults = [], now = 1003, ticks = []\<rparr>"
    by code_simp
  have f: "faults four_tags = []" by (simp add: v)
  have k: "Keyword ?args \<noteq> []" by simp
  have n: "length (Keyword ?args) + 2 \<le> 50000" by simp
  have a: "ascii_text (Keyword ?args)" by (simp add: ascii_text_def)
  have b: "\<forall>r \<in> set (repositories four_tags). ascii_text (r_repository r)"
    by (simp add: v ascii_text_def)
  have all: "map r_repository (repositories four_tags)
               = [''beta/app'', ''alpha/tool'', ''alpha/app'']"
    by (simp add: v)
  have "take (nat (Limit (prepare ?args))) (drop (nat (Skip (prepare ?args)))
         (filter (like (''%'' @ Keyword ?args @ ''%''))
            [''beta/app'', ''alpha/tool'', ''alpha/app'']))
       = [''alpha/tool'', ''alpha/app'']"
    by code_simp
  then have ev: "take (nat (Limit (prepare ?args))) (drop (nat (Skip (prepare ?args)))
         (filter (like (''%'' @ Keyword ?args @ ''%''))
            (map r_repository (repositories four_tags))))
       = [''alpha/tool'', ''alpha/app'']"
    by (simp only: all)
  have tg: "map (\<lambda>r. map Tag_Tag (Repository_Tags r)) (projr (fst (GetPage ?args four_tags)))
              = [[''v3''], [''v1.0'', ''v1.2'']]"
    by code_simp
  from GetPage_keyword_filter [OF f k n a b]
  have "\<exists>records. GetPage ?args four_tags = (Inr records, four_tags) \<and>
          map Repository_Repository records = [''alpha/tool'', ''alpha/app'']"
    unfolding ev by (elim exE) (erule conjE, erule conjE, rule exI, rule conjI, assumption+)
  moreover from b have "list_all (\<lambda>r. ascii_text (r_repository r)) (repositories four_tags)"
    by (simp only: list_all_iff)
  ultimately show ?thesis using f k n a all tg by (intro conjI)
qed

text \<open>
  C2, as it is stated, fails on the case of letters: the keyword \<^verbatim>\<open>ALPHA\<close> is a substring
  of no repository name of the example catalog, and the page lists the two repositories
  whose names contain \<^verbatim>\<open>alpha\<close>.
\<close>

theorem keyword_filter_ignores_case:
  "page_names (fst (GetPage \<lparr>Keyword = ''ALPHA'', Skip = 0, Limit = 20\<rparr> three_repositories))
     = [''alpha/app'', ''alpha/tool''] \<and>
   filter (\<lambda>name. has_substring name ''ALPHA'')
     (map r_repository (repositories three_repositories)) = [] \<and>
   page_names (fst (GetPage \<lparr>Keyword = ''ALPHA'', Skip = 0, Limit = 20\<rparr> three_repositories))
     \<noteq> filter (\<lambda>name. has_substring name ''ALPHA'')
         (map r_repository (repositories three_repositories))"
  by code_simp

subsection \<open>Reading the query parameters\<close>

lemma decimal_from_Nil [simp]: "decimal_from a [] = a"
  by (simp add: decimal_from_def)

lemma decimal_from_Cons [simp]: "decimal_from a (d # ds) = decimal_from (10 * a + (of_char d - 48)) ds"
  by (simp add: decimal_from_def)

lemma decimal_from_ge: "a \<le> decimal_from a ds"
proof (induction ds arbitrary: a)
  case Nil
  show ?case by simp
next
  case (Cons d ds)
  have "a \<le> 10 * a + (of_char d - 48)" by simp
  also have "\<dots> \<le> decimal_from (10 * a + (of_char d - 48)) ds" by (rule Cons.IH)
  finally show ?case by simp
qed

lemma cutoff64_val: "unat cutoff64 = 1844674407370955162"
  by (simp add: cutoff64_def)

lemma maxVal_val: "maxVal = - 1"
  by (simp add: maxVal_def)

lemma digit_bound: "is_digit d \<Longrightarrow> (of_char d :: nat) - 48 \<le> 9"
  unfolding is_digit_def by linarith

lemma ParseUint_loop_eq:
  "ParseUint_loop s n =
     (if decimal_from (unat n) (takeWhile is_digit s) > 2 ^ 64 - 1 then (- 1, Some ErrRange)
      else if dropWhile is_digit s \<noteq> [] then (0, Some ErrSyntax)
      else (of_nat (decimal_from (unat n) (takeWhile is_digit s)), None))"
proof (induction s arbitrary: n)
  case Nil
  have "unat n < 2 ^ 64" using unsigned_less [of n] by simp
  then show ?case by simp
next
  case (Cons d ds)
  have nb: "unat n < 2 ^ 64" using unsigned_less [of n] by simp
  show ?case
  proof (cases "is_digit d")
    case False
    with nb show ?thesis by simp
  next
    case True
    let ?v = "(of_char d :: nat) - 48"
    have v9: "?v \<le> 9" using True by (rule digit_bound)
    have uv: "unat (of_nat ?v :: uint64) = ?v"
      using v9 by (simp add: unat_of_nat)
    show ?thesis
    proof (cases "n \<ge> cutoff64")
      case c: True
      then have "1844674407370955162 \<le> unat n"
        by (simp add: word_le_nat_alt cutoff64_val)
      then have "2 ^ 64 \<le> 10 * unat n + ?v" by simp
      also have "\<dots> \<le> decimal_from (10 * unat n + ?v) (takeWhile is_digit ds)"
        by (rule decimal_from_ge)
      finally have "decimal_from (unat n) (takeWhile is_digit (d # ds)) > 2 ^ 64 - 1"
        using True by simp
      with True c show ?thesis by (simp add: Let_def)
    next
      case c: False
      then have lt: "unat n < 1844674407370955162"
        by (simp add: word_le_nat_alt cutoff64_val)
      have um: "unat (n * 10) = unat n * 10"
      proof -
        have "unat n * unat (10 :: uint64) < 2 ^ LENGTH(64)" using lt by simp
        then have "unat (n * 10) = unat n * unat (10 :: uint64)"
          by (simp only: unat_mult_lem)
        then show ?thesis by simp
      qed
      show ?thesis
      proof (cases "n * 10 + of_nat ?v < n * 10")
        case o: True
        then have "\<not> (n * 10 \<le> n * 10 + of_nat ?v)" by simp
        then have "\<not> (unat (n * 10) + unat (of_nat ?v :: uint64) < 2 ^ LENGTH(64))"
          by (simp only: no_olen_add_nat not_False_eq_True)
        then have "2 ^ 64 \<le> 10 * unat n + ?v" using um uv by simp
        also have "\<dots> \<le> decimal_from (10 * unat n + ?v) (takeWhile is_digit ds)"
          by (rule decimal_from_ge)
        finally have "decimal_from (unat n) (takeWhile is_digit (d # ds)) > 2 ^ 64 - 1"
          using True by simp
        with True c o show ?thesis by (simp add: Let_def)
      next
        case o: False
        then have "n * 10 \<le> n * 10 + of_nat ?v" by simp
        then have "unat (n * 10) + unat (of_nat ?v :: uint64) < 2 ^ LENGTH(64)"
          by (simp only: no_olen_add_nat not_False_eq_True)
        then have "unat (n * 10 + of_nat ?v) = unat (n * 10) + unat (of_nat ?v :: uint64)"
          by (simp only: unat_add_lem)
        then have u1: "unat (n * 10 + of_nat ?v) = 10 * unat n + ?v" using um uv by simp
        have step: "ParseUint_loop (d # ds) n = ParseUint_loop ds (n * 10 + of_nat ?v)"
          using True c o by (simp add: Let_def maxVal_val)
        show ?thesis
          unfolding step Cons.IH [of "n * 10 + of_nat ?v"] u1 using True by simp
      qed
    qed
  qed
qed


lemma ParseUint_eq:
  "ParseUint s =
     (if s = [] then (0, Some ErrSyntax)
      else if decimal_from 0 (takeWhile is_digit s) > 2 ^ 64 - 1 then (- 1, Some ErrRange)
      else if \<not> list_all is_digit s then (0, Some ErrSyntax)
      else (of_nat (decimal_from 0 s), None))"
proof (cases "list_all is_digit s")
  case True
  then have tw: "takeWhile is_digit s = s" "dropWhile is_digit s = []"
    by (simp_all add: list_all_iff)
  show ?thesis
    unfolding ParseUint_def ParseUint_loop_eq tw using True by simp
next
  case False
  then have "dropWhile is_digit s \<noteq> []"
    by (simp add: dropWhile_eq_Nil_conv list_all_iff)
  with False show ?thesis
    by (simp add: ParseUint_def ParseUint_loop_eq)
qed

lemma sint_pos: "V < 2 ^ 63 \<Longrightarrow> sint (of_nat V :: uint64) = int V"
proof -
  assume "V < 2 ^ 63"
  then have "int V < 2 ^ 63" by (metis of_nat_less_iff of_nat_numeral of_nat_power)
  then have "signed_take_bit 63 (int V) = int V"
    by (intro signed_take_bit_int_eq_self) simp_all
  then show ?thesis
    using signed_of_int [of "int V", where ?'b = 64 and ?'a = int] by simp
qed

lemma sint_neg: "V \<le> 2 ^ 63 \<Longrightarrow> sint (- of_nat V :: uint64) = - int V"
proof -
  assume "V \<le> 2 ^ 63"
  then have "int V \<le> 2 ^ 63" by (metis of_nat_le_iff of_nat_numeral of_nat_power)
  then have "signed_take_bit 63 (- int V) = - int V"
    by (intro signed_take_bit_int_eq_self) simp_all
  then show ?thesis
    using signed_of_int [of "- int V", where ?'b = 64 and ?'a = int] by simp
qed

lemma unat_of_nat64: "V \<le> 2 ^ 64 - 1 \<Longrightarrow> unat (of_nat V :: uint64) = V"
  by (simp add: unat_of_nat)


lemma cutoff_vals:
  "sint (push_bit 63 1 - 1 :: uint64) = 2 ^ 63 - 1"
  "sint (- push_bit 63 1 :: uint64) = - (2 ^ 63)"
  "unat (push_bit 63 1 :: uint64) = 2 ^ 63"
  by simp_all

lemma not_range_iff: "err \<noteq> None \<and> err \<noteq> Some ErrRange \<longleftrightarrow> err = Some ErrSyntax"
  by (cases err) (auto intro: num_error.exhaust)

lemma ParseInt_unfold:
  assumes "s \<noteq> []"
  shows "ParseInt s =
     (case ParseUint (unsigned_part s) of
        (un, err) \<Rightarrow>
          if err = Some ErrSyntax then (0, err)
          else if \<not> negative s \<and> unat un \<ge> 2 ^ 63 then (2 ^ 63 - 1, Some ErrRange)
          else if negative s \<and> unat un > 2 ^ 63 then (- (2 ^ 63), Some ErrRange)
          else (sint (if negative s then - un else un), None))"
proof -
  from assms obtain c cs where s: "s = c # cs" by (cases s) auto
  obtain un err where pu: "ParseUint (unsigned_part s) = (un, err)"
    by (cases "ParseUint (unsigned_part s)")
  have err: "err = None \<or> err = Some ErrSyntax \<or> err = Some ErrRange"
    by (cases err) (auto intro: num_error.exhaust)
  consider (plus) "c = CHR ''+''" | (minus) "c = CHR ''-''"
    | (other) "c \<noteq> CHR ''+''" "c \<noteq> CHR ''-''" by blast
  then show ?thesis
  proof cases
    case plus
    with pu s have "ParseUint cs = (un, err)" by (simp add: unsigned_part_def)
    with plus err show ?thesis
      unfolding pu by (auto simp: s ParseInt_def negative_def word_le_nat_alt word_less_nat_alt)
  next
    case minus
    with pu s have "ParseUint cs = (un, err)" by (simp add: unsigned_part_def)
    with minus err show ?thesis
      unfolding pu by (auto simp: s ParseInt_def negative_def word_le_nat_alt word_less_nat_alt)
  next
    case other
    with pu s have "ParseUint (c # cs) = (un, err)" by (simp add: unsigned_part_def)
    with other err show ?thesis
      unfolding pu by (auto simp: s ParseInt_def negative_def word_le_nat_alt word_less_nat_alt)
  qed
qed

lemma Atoi_eq_value: "fst (Atoi s) = Atoi_value s"
proof (cases "s = []")
  case True
  then show ?thesis
    by (simp add: Atoi_def ParseInt_def Atoi_value_def decimal_integer_def unsigned_part_def
        digit_run_overflows_def)
next
  case ne: False
  let ?b = "unsigned_part s"
  let ?V = "decimal_from 0 ?b"
  show ?thesis
  proof (cases "?b = []")
    case True
    then show ?thesis
      using ne by (simp add: Atoi_def ParseInt_unfold ParseUint_eq Atoi_value_def
          decimal_integer_def digit_run_overflows_def)
  next
    case b: False
    show ?thesis
    proof (cases "decimal_from 0 (takeWhile is_digit ?b) > 2 ^ 64 - 1")
      case over: True
      have pu: "ParseUint ?b = (- 1, Some ErrRange)"
        using b over by (simp add: ParseUint_eq)
      have un: "unat (- 1 :: uint64) = 2 ^ 64 - 1" by (simp add: unsigned_minus_1_eq_mask mask_eq_exp_minus_1)
      have res: "fst (Atoi s) = (if negative s then - (2 ^ 63) else 2 ^ 63 - 1)"
        using ne by (simp add: Atoi_def ParseInt_unfold pu un)
      show ?thesis
      proof (cases "list_all is_digit ?b")
        case True
        then have "takeWhile is_digit ?b = ?b" by (simp add: list_all_iff)
        with over have "?V > 2 ^ 64 - 1" by simp
        then have "int ?V > 2 ^ 63" by simp
        then show ?thesis
          unfolding res Atoi_value_def decimal_integer_def Let_def using True b by simp
      next
        case False
        then show ?thesis
          unfolding res Atoi_value_def decimal_integer_def Let_def digit_run_overflows_def
          using over by simp
      qed
    next
      case fits: False
      show ?thesis
      proof (cases "list_all is_digit ?b")
        case False
        then have "ParseUint ?b = (0, Some ErrSyntax)"
          using b fits by (simp add: ParseUint_eq)
        then have "fst (Atoi s) = 0"
          using ne by (simp add: Atoi_def ParseInt_unfold)
        then show ?thesis
          unfolding Atoi_value_def decimal_integer_def Let_def digit_run_overflows_def
          using False fits by simp
      next
        case True
        then have tw: "takeWhile is_digit ?b = ?b" by (simp add: list_all_iff)
        from fits have V: "?V \<le> 2 ^ 64 - 1" unfolding tw by simp
        have pu: "ParseUint ?b = (of_nat ?V, None)"
          using b fits True by (simp add: ParseUint_eq)
        have uV: "unat (of_nat ?V :: uint64) = ?V" using V by (rule unat_of_nat64)
        have res: "fst (Atoi s) =
            (if \<not> negative s \<and> ?V \<ge> 2 ^ 63 then 2 ^ 63 - 1
             else if negative s \<and> ?V > 2 ^ 63 then - (2 ^ 63)
             else sint (if negative s then - of_nat ?V else of_nat ?V :: uint64))"
          using ne by (simp add: Atoi_def ParseInt_unfold pu uV)
        have spec: "Atoi_value s =
            max (- (2 ^ 63)) (min (if negative s then - int ?V else int ?V) (2 ^ 63 - 1))"
          unfolding Atoi_value_def decimal_integer_def Let_def using True b by simp
        show ?thesis
        proof (cases "negative s")
          case n: True
          show ?thesis
          proof (cases "?V > 2 ^ 63")
            case True
            then have "int ?V > 2 ^ 63" by simp
            with True n show ?thesis unfolding res spec by simp
          next
            case False
            then have le: "?V \<le> 2 ^ 63" by simp
            then have "int ?V \<le> 2 ^ 63" by simp
            with False n show ?thesis unfolding res spec by (simp add: sint_neg [OF le])
          qed
        next
          case n: False
          show ?thesis
          proof (cases "?V \<ge> 2 ^ 63")
            case True
            then have "int ?V \<ge> 2 ^ 63" by simp
            with True n show ?thesis unfolding res spec by simp
          next
            case False
            then have lt: "?V < 2 ^ 63" by simp
            then have "int ?V < 2 ^ 63" by simp
            with False n show ?thesis unfolding res spec by (simp add: sint_pos [OF lt])
          qed
        qed
      qed
    qed
  qed
qed

lemma clamp_skip:
  "0 < M \<Longrightarrow> L < 0 \<Longrightarrow>
   (if max L (min n M) < 0 then 0 else max L (min n M)) = (if n < 0 then 0 else min n (M::int))"
  by auto

lemma clamp_limit:
  "1 \<le> M \<Longrightarrow> L < 1 \<Longrightarrow>
   (if max L (min n M) < 1 then 20 else max L (min n M)) = (if n < 1 then 20 else min n (M::int))"
  by auto

text \<open>
  C8, as the code has it. The effective skip is the value of the \<^verbatim>\<open>skip\<close> parameter when
  it is a decimal integer from 0 to \<open>2\<^sup>6\<^sup>3 - 1\<close>, 0 when it is a negative decimal integer,
  and \<open>2\<^sup>6\<^sup>3 - 1\<close> when it is a larger one; the effective limit is the value of the
  \<^verbatim>\<open>limit\<close> parameter when it is a decimal integer from 1 to \<open>2\<^sup>6\<^sup>3 - 1\<close>, 20 when it
  is a smaller one, and \<open>2\<^sup>6\<^sup>3 - 1\<close> when it is a larger one. A parameter that is no
  decimal integer gives skip 0 and limit 20, unless it starts, after an optional sign
  other than minus, with digits whose value exceeds \<open>2\<^sup>6\<^sup>4 - 1\<close>: then it counts as out
  of range and gives \<open>2\<^sup>6\<^sup>3 - 1\<close>.
\<close>

theorem effective_pagination_arguments:
  "Skip (prepare (queryArgs form)) =
     (case decimal_integer (Values_Get form ''skip'') of
        Some n \<Rightarrow> if n < 0 then 0 else min n (2 ^ 63 - 1)
      | None \<Rightarrow>
          if digit_run_overflows (Values_Get form ''skip'') \<and> \<not> negative (Values_Get form ''skip'')
          then 2 ^ 63 - 1 else 0) \<and>
   Limit (prepare (queryArgs form)) =
     (case decimal_integer (Values_Get form ''limit'') of
        Some n \<Rightarrow> if n < 1 then 20 else min n (2 ^ 63 - 1)
      | None \<Rightarrow>
          if digit_run_overflows (Values_Get form ''limit'') \<and> \<not> negative (Values_Get form ''limit'')
          then 2 ^ 63 - 1 else 20)"
proof -
  let ?p = "Values_Get form ''skip''" and ?q = "Values_Get form ''limit''"
  have skip: "Skip (queryArgs form) = Atoi_value ?p"
    and limit: "Limit (queryArgs form) = Atoi_value ?q"
    by (simp_all add: queryArgs_def Let_def Atoi_eq_value)
  have M: "(0::int) < 2 ^ 63 - 1" "(1::int) \<le> 2 ^ 63 - 1" "- (2 ^ 63) < (0::int)"
    "- (2 ^ 63) < (1::int)"
    by simp_all
  have "Skip (prepare (queryArgs form)) =
     (case decimal_integer ?p of
        Some n \<Rightarrow> if n < 0 then 0 else min n (2 ^ 63 - 1)
      | None \<Rightarrow> if digit_run_overflows ?p \<and> \<not> negative ?p then 2 ^ 63 - 1 else 0)"
  proof (cases "decimal_integer ?p")
    case None
    with M(1,3) show ?thesis
      unfolding prepare_fields skip Atoi_value_def by simp
  next
    case (Some n)
    show ?thesis
      unfolding prepare_fields skip Atoi_value_def Some option.case
      by (rule clamp_skip [OF M(1,3)])
  qed
  moreover have "Limit (prepare (queryArgs form)) =
     (case decimal_integer ?q of
        Some n \<Rightarrow> if n < 1 then 20 else min n (2 ^ 63 - 1)
      | None \<Rightarrow> if digit_run_overflows ?q \<and> \<not> negative ?q then 2 ^ 63 - 1 else 20)"
  proof (cases "decimal_integer ?q")
    case None
    with M(2,4) show ?thesis
      unfolding prepare_fields limit Atoi_value_def by simp
  next
    case (Some n)
    show ?thesis
      unfolding prepare_fields limit Atoi_value_def Some option.case
      by (rule clamp_limit [OF M(2,4)])
  qed
  ultimately show ?thesis by (rule conjI)
qed

theorem effective_pagination_arguments_witness:
  "decimal_integer (Values_Get form_in_range ''skip'') = Some 40 \<and>
   decimal_integer (Values_Get form_in_range ''limit'') = Some (- 5) \<and>
   Skip (prepare (queryArgs form_in_range)) = 40 \<and>
   Limit (prepare (queryArgs form_in_range)) = 20 \<and>
   decimal_integer (Values_Get Map.empty ''skip'') = None \<and>
   \<not> digit_run_overflows (Values_Get Map.empty ''skip'') \<and>
   Skip (prepare (queryArgs Map.empty)) = 0 \<and>
   Limit (prepare (queryArgs Map.empty)) = 20"
proof -
  have d: "decimal_integer (Values_Get form_in_range ''skip'') = Some 40"
    "decimal_integer (Values_Get form_in_range ''limit'') = Some (- 5)"
    "decimal_integer (Values_Get Map.empty ''skip'') = None"
    "decimal_integer (Values_Get Map.empty ''limit'') = None"
    "digit_run_overflows (Values_Get Map.empty ''skip'') = False"
    "digit_run_overflows (Values_Get Map.empty ''limit'') = False"
    by (simp_all add: form_in_range_def Values_Get_def decimal_integer_def unsigned_part_def
        negative_def is_digit_def decimal_from_def digit_run_overflows_def)
  from effective_pagination_arguments [of form_in_range]
  have 1: "Skip (prepare (queryArgs form_in_range)) = 40"
    "Limit (prepare (queryArgs form_in_range)) = 20"
    unfolding d by simp_all
  from effective_pagination_arguments [of Map.empty]
  have 2: "Skip (prepare (queryArgs Map.empty)) = 0"
    "Limit (prepare (queryArgs Map.empty)) = 20"
    unfolding d by simp_all
  from d 1 2 show ?thesis by blast
qed

text \<open>
  C8, as it is stated, fails beyond the range of \<^verbatim>\<open>int\<close>: for the parameter
  \<^verbatim>\<open>9223372036854775808\<close> \<^verbatim>\<open>Atoi\<close> returns the largest \<^verbatim>\<open>int\<close> together with a range
  error, the handler drops the error, and the effective skip and limit are
  \<open>2\<^sup>6\<^sup>3 - 1\<close>: neither the value of the parameter nor the defaults 0 and 20.
\<close>

theorem out_of_range_parameter_saturates:
  "decimal_integer (Values_Get form_out_of_range ''skip'') = Some 9223372036854775808 \<and>
   Atoi (Values_Get form_out_of_range ''skip'') = (9223372036854775807, Some ErrRange) \<and>
   Skip (prepare (queryArgs form_out_of_range)) = 9223372036854775807 \<and>
   Skip (prepare (queryArgs form_out_of_range))
     \<noteq> claimed_skip (Values_Get form_out_of_range ''skip'') \<and>
   Skip (prepare (queryArgs form_out_of_range)) \<noteq> 0 \<and>
   Limit (prepare (queryArgs form_out_of_range)) = 9223372036854775807 \<and>
   Limit (prepare (queryArgs form_out_of_range))
     \<noteq> claimed_limit (Values_Get form_out_of_range ''limit'') \<and>
   Limit (prepare (queryArgs form_out_of_range)) \<noteq> 20"
proof -
  have p: "Values_Get form_out_of_range ''skip'' = ''9223372036854775808''"
    "Values_Get form_out_of_range ''limit'' = ''9223372036854775808''"
    by (simp_all add: form_out_of_range_def Values_Get_def)
  have d: "decimal_integer ''9223372036854775808'' = Some 9223372036854775808"
    by (simp add: decimal_integer_def unsigned_part_def negative_def is_digit_def
        decimal_from_def)
  have a: "Atoi ''9223372036854775808'' = (9223372036854775807, Some ErrRange)"
    by (simp add: Atoi_def ParseInt_def ParseUint_def is_digit_def cutoff64_def maxVal_def)
  have s: "Skip (prepare (queryArgs form_out_of_range)) = 9223372036854775807"
    and l: "Limit (prepare (queryArgs form_out_of_range)) = 9223372036854775807"
    by (simp_all add: queryArgs_def p a prepare_def Let_def)
  have c: "claimed_skip ''9223372036854775808'' = 9223372036854775808"
    "claimed_limit ''9223372036854775808'' = 9223372036854775808"
    by (simp_all add: claimed_skip_def claimed_limit_def d)
  show ?thesis
    unfolding p d a s l c by simp
qed

end
